theory Spec2Isabelle
  imports Main "HOL-Library.AList"
begin

section \<open>Addresses and their serialization (src/core/address.js)\<close>

text \<open>
  An \<open>Address\<close> is a JavaScript object with the four string-valued own properties
  \<open>repositoryName\<close>, \<open>pluginName\<close>, \<open>type\<close> and \<open>id\<close>. A JavaScript object
  remembers the order in which its properties were assigned, and \<open>JSON.stringify\<close>
  writes them in that order, so an address is modelled as the list of its own
  properties (key and value) in assignment order. Strings are lists of 8-bit code
  units.

  Arguments have the types of the Flow annotations: a node, an edge or an address is
  never \<open>null\<close> or \<open>undefined\<close>, so the guards \<open>x == null\<close> of the source, which
  reject only such ill-typed arguments, have no branch here. A lookup that finds
  nothing returns \<open>undefined\<close> in the source and \<open>None\<close> here.
\<close>

type_synonym address = "(string \<times> string) list"

definition is_address :: "address \<Rightarrow> bool" where
  "is_address a \<longleftrightarrow>
     distinct (map fst a) \<and>
     set (map fst a) = {''repositoryName'', ''pluginName'', ''type'', ''id''}"

text \<open>Property access \<open>a.k\<close>: the value, or \<open>None\<close> for \<open>undefined\<close>.\<close>

definition field :: "address \<Rightarrow> string \<Rightarrow> string option" where
  "field a k = map_of a k"

definition fieldwise_equal :: "address \<Rightarrow> address \<Rightarrow> bool" where
  "fieldwise_equal a b \<longleftrightarrow>
     field a ''repositoryName'' = field b ''repositoryName'' \<and>
     field a ''pluginName'' = field b ''pluginName'' \<and>
     field a ''type'' = field b ''type'' \<and>
     field a ''id'' = field b ''id''"

text \<open>
  \<open>deepEqual\<close> (lodash \<open>isEqual\<close>) on two flat objects of strings: the same keys, and
  the same value at each key, whatever the order of the properties.
\<close>

definition deepEqual_address :: "address \<Rightarrow> address \<Rightarrow> bool" where
  "deepEqual_address a b \<longleftrightarrow> set a = set b"

subsection \<open>\<open>JSON.stringify\<close> on an object of strings\<close>

definition dquote :: char where
  "dquote = CHR 0x22"

definition backslash :: char where
  "backslash = CHR 0x5C"

definition hex_digit :: "nat \<Rightarrow> char" where
  "hex_digit n = ''0123456789abcdef'' ! (n mod 16)"

text \<open>
  One code unit of \<open>QuoteJSONString\<close> (ECMA-262): the short escapes, \<open>\u00XX\<close> for
  the other control characters, and every other code unit as it is.
\<close>

definition QuoteJSONChar :: "char \<Rightarrow> string" where
  "QuoteJSONChar c =
     (if c = CHR 0x08 then [backslash, CHR ''b'']
      else if c = CHR 0x09 then [backslash, CHR ''t'']
      else if c = CHR 0x0A then [backslash, CHR ''n'']
      else if c = CHR 0x0C then [backslash, CHR ''f'']
      else if c = CHR 0x0D then [backslash, CHR ''r'']
      else if c = dquote then [backslash, dquote]
      else if c = backslash then [backslash, backslash]
      else if (of_char c :: nat) < 0x20 then
        [backslash, CHR ''u'', CHR ''0'', CHR ''0'',
         hex_digit (of_char c div 16), hex_digit (of_char c mod 16)]
      else [c])"

definition QuoteJSONString :: "string \<Rightarrow> string" where
  "QuoteJSONString s = dquote # concat (map QuoteJSONChar s) @ [dquote]"

fun join_comma :: "string list \<Rightarrow> string" where
  "join_comma [] = []"
| "join_comma [x] = x"
| "join_comma (x # y # ys) = x @ '','' @ join_comma (y # ys)"

definition SerializeJSONProperty :: "string \<times> string \<Rightarrow> string" where
  "SerializeJSONProperty kv = QuoteJSONString (fst kv) @ '':'' @ QuoteJSONString (snd kv)"

definition JSON_stringify :: "address \<Rightarrow> string" where
  "JSON_stringify a = ''{'' @ join_comma (map SerializeJSONProperty a) @ ''}''"

subsection \<open>\<open>JSON.parse\<close> on the text of an object of strings\<close>

text \<open>
  The parser reads JSON text of the form \<open>{ "k" : "v" , ... }\<close> with optional
  white space between the tokens and with every escape of a JSON string. Anything
  else is a \<open>SyntaxError\<close> (\<open>None\<close>); so is an escape \<open>\uXXXX\<close> above \<open>00FF\<close>, which
  the 8-bit strings of this model cannot hold.
\<close>

definition is_ws :: "char \<Rightarrow> bool" where
  "is_ws c \<longleftrightarrow> c = CHR 0x20 \<or> c = CHR 0x09 \<or> c = CHR 0x0A \<or> c = CHR 0x0D"

definition skip_ws :: "string \<Rightarrow> string" where
  "skip_ws s = dropWhile is_ws s"

definition hex_value :: "char \<Rightarrow> nat option" where
  "hex_value c =
     (let n = (of_char c :: nat) in
      if 0x30 \<le> n \<and> n \<le> 0x39 then Some (n - 0x30)
      else if 0x61 \<le> n \<and> n \<le> 0x66 then Some (n - 0x61 + 10)
      else if 0x41 \<le> n \<and> n \<le> 0x46 then Some (n - 0x41 + 10)
      else None)"

definition unescape :: "char \<Rightarrow> char option" where
  "unescape e =
     (if e = dquote then Some dquote
      else if e = backslash then Some backslash
      else if e = CHR ''/'' then Some (CHR ''/'')
      else if e = CHR ''b'' then Some (CHR 0x08)
      else if e = CHR ''f'' then Some (CHR 0x0C)
      else if e = CHR ''n'' then Some (CHR 0x0A)
      else if e = CHR ''r'' then Some (CHR 0x0D)
      else if e = CHR ''t'' then Some (CHR 0x09)
      else None)"

definition unicode_escape :: "char \<Rightarrow> char \<Rightarrow> char \<Rightarrow> char \<Rightarrow> char option" where
  "unicode_escape h1 h2 h3 h4 =
     (case (hex_value h1, hex_value h2, hex_value h3, hex_value h4) of
        (Some d1, Some d2, Some d3, Some d4) \<Rightarrow>
          (if d1 = 0 \<and> d2 = 0 then Some (char_of (16 * d3 + d4)) else None)
      | _ \<Rightarrow> None)"

definition cons_result :: "char \<Rightarrow> (string \<times> string) option \<Rightarrow> (string \<times> string) option" where
  "cons_result c r = (case r of None \<Rightarrow> None | Some (s, rest) \<Rightarrow> Some (c # s, rest))"

text \<open>One escape, after its backslash: the character it stands for and the text after it.\<close>

definition parse_escape :: "string \<Rightarrow> (char \<times> string) option" where
  "parse_escape cs =
     (case cs of
        [] \<Rightarrow> None
      | e # cs1 \<Rightarrow>
          (if e = CHR ''u'' then
             (case cs1 of
                h1 # h2 # h3 # h4 # cs2 \<Rightarrow>
                  (case unicode_escape h1 h2 h3 h4 of
                     None \<Rightarrow> None
                   | Some d \<Rightarrow> Some (d, cs2))
              | _ \<Rightarrow> None)
           else
             (case unescape e of
                None \<Rightarrow> None
              | Some d \<Rightarrow> Some (d, cs1))))"

lemma parse_escape_shorter:
  "parse_escape cs = Some (d, rest) \<Longrightarrow> length rest < length cs"
  unfolding parse_escape_def
  by (simp split: list.splits if_splits option.splits) auto

text \<open>
  The characters of a string after its opening quote, up to the closing quote:
  the string read and the text that follows it.
\<close>

function parse_string_body :: "string \<Rightarrow> (string \<times> string) option" where
  "parse_string_body [] = None"
| "parse_string_body (c # cs) =
     (if c = dquote then Some ([], cs)
      else if c = backslash then
        (case parse_escape cs of
           None \<Rightarrow> None
         | Some (d, cs1) \<Rightarrow> cons_result d (parse_string_body cs1))
      else if (of_char c :: nat) < 0x20 then None
      else cons_result c (parse_string_body cs))"
  by pat_completeness auto

termination
  by (relation "measure length") (auto dest: parse_escape_shorter)

text \<open>A quoted string: the opening quote, then the body.\<close>

definition parse_string :: "string \<Rightarrow> (string \<times> string) option" where
  "parse_string s = (case s of [] \<Rightarrow> None | c # cs \<Rightarrow> if c = dquote then parse_string_body cs else None)"

text \<open>One member \<open>"k" : "v"\<close>: the pair read and the text that follows it.\<close>

definition parse_member :: "string \<Rightarrow> ((string \<times> string) \<times> string) option" where
  "parse_member s =
     (case parse_string s of
        None \<Rightarrow> None
      | Some (k, s1) \<Rightarrow>
          (case skip_ws s1 of
             [] \<Rightarrow> None
           | c # s2 \<Rightarrow>
               (if c = CHR '':'' then
                  (case parse_string (skip_ws s2) of
                     None \<Rightarrow> None
                   | Some (v, s3) \<Rightarrow> Some ((k, v), s3))
                else None)))"

lemma length_cons_result:
  "cons_result c r = Some (x, rest) \<Longrightarrow> \<exists>y. r = Some (y, rest)"
  by (auto simp: cons_result_def split: option.splits)

lemma parse_string_body_shorter:
  "parse_string_body s = Some (x, rest) \<Longrightarrow> length rest < length s"
proof (induction s arbitrary: x rest rule: parse_string_body.induct)
  case 1
  then show ?case by simp
next
  case (2 c cs)
  show ?case
  proof (cases "c = dquote")
    case True
    with "2.prems" show ?thesis by simp
  next
    case notq: False
    show ?thesis
    proof (cases "c = backslash")
      case False
      with notq "2.prems" obtain y where "parse_string_body cs = Some (y, rest)"
        by (auto split: if_splits dest: length_cons_result)
      with "2.IH"(2) [of y rest] notq False "2.prems" show ?thesis
        by (auto split: if_splits)
    next
      case bs: True
      with notq "2.prems" obtain d cs1 y where
        e: "parse_escape cs = Some (d, cs1)" and y: "parse_string_body cs1 = Some (y, rest)"
        by (auto split: option.splits dest: length_cons_result)
      from "2.IH"(1) [OF notq bs e refl y] parse_escape_shorter [OF e] show ?thesis
        by simp
    qed
  qed
qed

lemma length_skip_ws: "length (skip_ws s) \<le> length s"
  by (simp add: skip_ws_def length_dropWhile_le)

lemma parse_string_shorter:
  "parse_string s = Some (x, rest) \<Longrightarrow> length rest < length s"
  by (auto simp: parse_string_def split: list.splits if_splits
      dest: parse_string_body_shorter)

lemma parse_member_shorter:
  assumes "parse_member s = Some (kv, rest)"
  shows "length rest < length s"
proof -
  from assms obtain k s1 c s2 v where
    k: "parse_string s = Some (k, s1)"
    and c: "skip_ws s1 = c # s2"
    and v: "parse_string (skip_ws s2) = Some (v, rest)"
    by (auto simp: parse_member_def split: option.splits list.splits if_splits)
  have "length rest < length (skip_ws s2)"
    using v by (rule parse_string_shorter)
  also have "\<dots> \<le> length s2"
    by (rule length_skip_ws)
  also have "\<dots> < length (skip_ws s1)"
    by (simp add: c)
  also have "\<dots> \<le> length s1"
    by (rule length_skip_ws)
  also have "\<dots> < length s"
    using k by (rule parse_string_shorter)
  finally show ?thesis .
qed

text \<open>
  The members of an object, from the first one to the closing brace, which must
  end the text (white space apart).
\<close>

function parse_members :: "string \<Rightarrow> (string \<times> string) list option" where
  "parse_members s =
     (case parse_member s of
        None \<Rightarrow> None
      | Some (kv, s1) \<Rightarrow>
          (case skip_ws s1 of
             [] \<Rightarrow> None
           | c # s2 \<Rightarrow>
               (if c = CHR '','' then
                  (case parse_members (skip_ws s2) of
                     None \<Rightarrow> None
                   | Some kvs \<Rightarrow> Some (kv # kvs))
                else if c = CHR ''}'' then
                  (if skip_ws s2 = [] then Some [kv] else None)
                else None)))"
  by pat_completeness auto

termination
proof (relation "measure length", goal_cases)
  case 1
  show ?case by simp
next
  case (2 s x2 kv s1 c s2)
  have "length (skip_ws s2) \<le> length s2"
    by (rule length_skip_ws)
  also have "\<dots> < length (skip_ws s1)"
    using 2 by simp
  also have "\<dots> \<le> length s1"
    by (rule length_skip_ws)
  also have "\<dots> < length s"
    using 2 by (auto dest: parse_member_shorter)
  finally show ?case by simp
qed

declare parse_members.simps [simp del]

text \<open>
  The members of the text of an object, in the order of the text; and the object
  they make: a key written twice keeps its first place and its last value.
\<close>

definition parse_object :: "string \<Rightarrow> (string \<times> string) list option" where
  "parse_object s =
     (case skip_ws s of
        [] \<Rightarrow> None
      | c # s1 \<Rightarrow>
          (if c = CHR ''{'' then
             (case skip_ws s1 of
                [] \<Rightarrow> None
              | d # s2 \<Rightarrow>
                  (if d = CHR ''}'' then (if skip_ws s2 = [] then Some [] else None)
                   else parse_members (d # s2)))
           else None))"

definition object_of_members :: "(string \<times> string) list \<Rightarrow> address" where
  "object_of_members kvs = fold (\<lambda>kv obj. AList.update (fst kv) (snd kv) obj) kvs []"

definition JSON_parse :: "string \<Rightarrow> address option" where
  "JSON_parse s = map_option object_of_members (parse_object s)"

section \<open>AddressMap (src/core/address.js)\<close>

text \<open>
  A value that can be stored has an \<open>address\<close> field (the interface \<open>Addressable\<close>);
  its other fields are the extension of the record, which is what \<open>SansAddress\<close>
  keeps. An \<open>AddressMap\<close> is its only field \<open>_data\<close>, an object used as a
  dictionary: the list of its entries in insertion order, where writing an existing
  key replaces the value in place (\<open>AList.update\<close>).
\<close>

datatype error = Error string | TypeError | SyntaxError

record addressable =
  address :: address

type_synonym 'u AddressMap = "(string \<times> 'u) list"

definition AddressMap_new :: "'u AddressMap" where
  "AddressMap_new = []"

definition add :: "'r addressable_scheme \<Rightarrow> 'r addressable_scheme AddressMap
    \<Rightarrow> 'r addressable_scheme AddressMap" where
  "add u m = AList.update (JSON_stringify (address u)) u m"

definition get :: "address \<Rightarrow> 'u AddressMap \<Rightarrow> 'u option" where
  "get a m = map_of m (JSON_stringify a)"

definition getAll :: "'u AddressMap \<Rightarrow> 'u list" where
  "getAll m = map snd m"

text \<open>
  \<open>equals\<close> is \<open>deepEqual\<close> of the two dictionaries: as many keys, and every key of
  the first is a key of the second with a deep-equal value. The deep equality of the
  stored values is a parameter; on a value it compares the address as an object and
  the other fields with \<open>eq_rest\<close>.
\<close>

definition deepEqual_addressable ::
  "('r \<Rightarrow> 'r \<Rightarrow> bool) \<Rightarrow> 'r addressable_scheme \<Rightarrow> 'r addressable_scheme \<Rightarrow> bool" where
  "deepEqual_addressable eq_rest u v \<longleftrightarrow>
     deepEqual_address (address u) (address v) \<and> eq_rest (addressable.more u) (addressable.more v)"

definition equals :: "('u \<Rightarrow> 'u \<Rightarrow> bool) \<Rightarrow> 'u AddressMap \<Rightarrow> 'u AddressMap \<Rightarrow> bool" where
  "equals eq this that \<longleftrightarrow>
     length this = length that \<and>
     list_all (\<lambda>(key, u). case map_of that key of None \<Rightarrow> False | Some v \<Rightarrow> eq u v) this"

definition toJSON :: "'r addressable_scheme AddressMap \<Rightarrow> (string \<times> 'r) list" where
  "toJSON this =
     fold (\<lambda>(key, u) result. AList.update key (addressable.more u) result) this []"

fun fromJSON_loop :: "(string \<times> 'r) list \<Rightarrow> 'r addressable_scheme AddressMap
    \<Rightarrow> error + 'r addressable_scheme AddressMap" where
  "fromJSON_loop [] result = Inr result"
| "fromJSON_loop ((key, r) # json) result =
     (case JSON_parse key of
        None \<Rightarrow> Inl SyntaxError
      | Some a \<Rightarrow> fromJSON_loop json (AList.update key \<lparr>address = a, \<dots> = r\<rparr> result))"

definition fromJSON :: "(string \<times> 'r) list \<Rightarrow> error + 'r addressable_scheme AddressMap" where
  "fromJSON json = fromJSON_loop json AddressMap_new"

section \<open>Graph (src/core/graph.js)\<close>

text \<open>
  A node is \<open>{address, payload}\<close>; an edge has these two fields and \<open>src\<close> and
  \<open>dst\<close>; an entry of an adjacency index is \<open>{address, edges}\<close>. A payload is a
  value of any type, compared by \<open>deepEqual\<close> as a whole: equality of the type.
  The fields \<open>_nodes\<close>, \<open>_edges\<close>, \<open>_outEdges\<close>, \<open>_inEdges\<close> of the class are
  written \<open>u_nodes\<close>, \<open>u_edges\<close>, \<open>u_outEdges\<close>, \<open>u_inEdges\<close>.
\<close>

record 'p node = addressable +
  payload :: 'p

record 'p edge = "'p node" +
  src :: address
  dst :: address

record adjacency = addressable +
  edges :: "address list"

record ('np, 'ep) graph =
  u_nodes :: "'np node AddressMap"
  u_edges :: "'ep edge AddressMap"
  u_outEdges :: "adjacency AddressMap"
  u_inEdges :: "adjacency AddressMap"

definition deepEqual_node :: "'p node \<Rightarrow> 'p node \<Rightarrow> bool" where
  "deepEqual_node a b \<longleftrightarrow>
     deepEqual_address (address a) (address b) \<and> payload a = payload b"

definition deepEqual_edge :: "'p edge \<Rightarrow> 'p edge \<Rightarrow> bool" where
  "deepEqual_edge a b \<longleftrightarrow>
     deepEqual_address (address a) (address b) \<and>
     deepEqual_address (src a) (src b) \<and>
     deepEqual_address (dst a) (dst b) \<and>
     payload a = payload b"

definition Graph_new :: "('np, 'ep) graph" where
  "Graph_new = \<lparr>u_nodes = AddressMap_new, u_edges = AddressMap_new,
     u_outEdges = AddressMap_new, u_inEdges = AddressMap_new\<rparr>"

definition getNode :: "address \<Rightarrow> ('np, 'ep) graph \<Rightarrow> 'np node option" where
  "getNode a this = get a (u_nodes this)"

definition getEdge :: "address \<Rightarrow> ('np, 'ep) graph \<Rightarrow> 'ep edge option" where
  "getEdge a this = get a (u_edges this)"

definition getAllNodes :: "('np, 'ep) graph \<Rightarrow> 'np node list" where
  "getAllNodes this = getAll (u_nodes this)"

definition getAllEdges :: "('np, 'ep) graph \<Rightarrow> 'ep edge list" where
  "getAllEdges this = getAll (u_edges this)"

text \<open>
  An operation that changes the graph returns its outcome (an error thrown, or a normal
  return) and the graph as the call leaves it, also when it throws.
\<close>

definition addNode :: "'np node \<Rightarrow> ('np, 'ep) graph \<Rightarrow> (error + unit) \<times> ('np, 'ep) graph" where
  "addNode node this =
     (case getNode (address node) this of
        Some existingNode \<Rightarrow>
          (if deepEqual_node existingNode node then (Inr (), this)
           else (Inl (Error (''node at address '' @ JSON_stringify (address node)
                   @ '' exists with distinct contents'')), this))
      | None \<Rightarrow>
          (Inr (),
           this\<lparr>u_nodes := add node (u_nodes this),
                u_outEdges := add \<lparr>address = address node, edges = []\<rparr> (u_outEdges this),
                u_inEdges := add \<lparr>address = address node, edges = []\<rparr> (u_inEdges this)\<rparr>))"

text \<open>
  \<open>index.get(a).edges.push(x)\<close>: the entry found at \<open>a\<close> gets \<open>x\<close> at the end of its
  array; with no entry at \<open>a\<close> the property access throws a \<open>TypeError\<close> (\<open>None\<close>).
\<close>

definition push_edge :: "address \<Rightarrow> address \<Rightarrow> adjacency AddressMap \<Rightarrow> adjacency AddressMap option" where
  "push_edge a x index =
     (case get a index of
        None \<Rightarrow> None
      | Some entry \<Rightarrow>
          Some (AList.update (JSON_stringify a) (entry\<lparr>edges := edges entry @ [x]\<rparr>) index))"

definition addEdge :: "'ep edge \<Rightarrow> ('np, 'ep) graph \<Rightarrow> (error + unit) \<times> ('np, 'ep) graph" where
  "addEdge edge this =
     (case getEdge (address edge) this of
        Some existingEdge \<Rightarrow>
          (if deepEqual_edge existingEdge edge then (Inr (), this)
           else (Inl (Error (''edge at address '' @ JSON_stringify (address edge)
                   @ '' exists with distinct contents'')), this))
      | None \<Rightarrow>
          (if getNode (src edge) this = None then
             (Inl (Error (''source '' @ JSON_stringify (src edge) @ '' does not exist'')), this)
           else if getNode (dst edge) this = None then
             (Inl (Error (''source '' @ JSON_stringify (dst edge) @ '' does not exist'')), this)
           else
             (let this1 = this\<lparr>u_edges := add edge (u_edges this)\<rparr> in
              case push_edge (src edge) (address edge) (u_outEdges this1) of
                None \<Rightarrow> (Inl TypeError, this1)
              | Some out \<Rightarrow>
                  (let this2 = this1\<lparr>u_outEdges := out\<rparr> in
                   case push_edge (dst edge) (address edge) (u_inEdges this2) of
                     None \<Rightarrow> (Inl TypeError, this2)
                   | Some inn \<Rightarrow> (Inr (), this2\<lparr>u_inEdges := inn\<rparr>)))))"

text \<open>
  The edges found through an adjacency index; an address of the index with no edge
  stored gives \<open>undefined\<close> in the array (\<open>None\<close>).
\<close>

definition getOutEdges :: "address \<Rightarrow> ('np, 'ep) graph \<Rightarrow> error + 'ep edge option list" where
  "getOutEdges nodeAddress this =
     (case get nodeAddress (u_outEdges this) of
        None \<Rightarrow> Inl (Error (''no node for address '' @ JSON_stringify nodeAddress))
      | Some result \<Rightarrow> Inr (map (\<lambda>e. getEdge e this) (edges result)))"

definition getInEdges :: "address \<Rightarrow> ('np, 'ep) graph \<Rightarrow> error + 'ep edge option list" where
  "getInEdges nodeAddress this =
     (case get nodeAddress (u_inEdges this) of
        None \<Rightarrow> Inl (Error (''no node for address '' @ JSON_stringify nodeAddress))
      | Some result \<Rightarrow> Inr (map (\<lambda>e. getEdge e this) (edges result)))"

definition Graph_equals :: "('np, 'ep) graph \<Rightarrow> ('np, 'ep) graph \<Rightarrow> bool" where
  "Graph_equals this that \<longleftrightarrow>
     equals deepEqual_node (u_nodes this) (u_nodes that) \<and>
     equals deepEqual_edge (u_edges this) (u_edges that)"

text \<open>
  \<open>xs.forEach(f)\<close> where \<open>f\<close> changes a state and may throw: the first error ends
  the loop and leaves the state as it is then.
\<close>

fun forEach :: "('a \<Rightarrow> 's \<Rightarrow> (error + unit) \<times> 's) \<Rightarrow> 'a list \<Rightarrow> 's \<Rightarrow> (error + unit) \<times> 's" where
  "forEach f [] s = (Inr (), s)"
| "forEach f (x # xs) s =
     (case f x s of
        (Inl e, s1) \<Rightarrow> (Inl e, s1)
      | (Inr _, s1) \<Rightarrow> forEach f xs s1)"

text \<open>
  The JSON form of a graph, \<open>{nodes, edges}\<close>; its two fields are written
  \<open>json_nodes\<close> and \<open>json_edges\<close>.
\<close>

record ('np, 'ep) GraphJSON =
  json_nodes :: "(string \<times> ('np, unit) node_ext) list"
  json_edges :: "(string \<times> ('ep, unit edge_ext) node_ext) list"

definition Graph_toJSON :: "('np, 'ep) graph \<Rightarrow> ('np, 'ep) GraphJSON" where
  "Graph_toJSON this =
     \<lparr>json_nodes = toJSON (u_nodes this), json_edges = toJSON (u_edges this)\<rparr>"

definition Graph_fromJSON :: "('np, 'ep) GraphJSON \<Rightarrow> error + ('np, 'ep) graph" where
  "Graph_fromJSON json =
     (case fromJSON (json_nodes json) of
        Inl e \<Rightarrow> Inl e
      | Inr nodeMap \<Rightarrow>
          (case forEach addNode (getAll nodeMap) Graph_new of
             (Inl e, _) \<Rightarrow> Inl e
           | (Inr _, result1) \<Rightarrow>
               (case fromJSON (json_edges json) of
                  Inl e \<Rightarrow> Inl e
                | Inr edgeMap \<Rightarrow>
                    (case forEach addEdge (getAll edgeMap) result1 of
                       (Inl e, _) \<Rightarrow> Inl e
                     | (Inr _, result2) \<Rightarrow> Inr result2))))"

subsection \<open>Merging\<close>

text \<open>
  \<open>merge\<close> takes two graph objects and makes a third one. To tell the objects
  apart, the graphs that exist are held in a store, a reference to a graph is its
  index there, and \<open>new Graph()\<close> puts an empty graph at the next free index. A
  call of an operation on a reference replaces the graph at that index by the graph the operation
  leaves. A resolver is a function of two values that returns a value or throws.
\<close>

type_synonym ('np, 'ep) store = "('np, 'ep) graph list"

definition new_Graph :: "('np, 'ep) store \<Rightarrow> nat \<times> ('np, 'ep) store" where
  "new_Graph h = (length h, h @ [Graph_new])"

definition call :: "nat \<Rightarrow> (('np, 'ep) graph \<Rightarrow> (error + 'a) \<times> ('np, 'ep) graph)
    \<Rightarrow> ('np, 'ep) store \<Rightarrow> (error + 'a) \<times> ('np, 'ep) store" where
  "call r operation h = (case operation (h ! r) of (outcome, this) \<Rightarrow> (outcome, h[r := this]))"

text \<open>The bodies of the four loops of \<open>merge\<close>, in the order of the source.\<close>

definition merge_node1 :: "nat \<Rightarrow> nat \<Rightarrow> ('np node \<Rightarrow> 'np node \<Rightarrow> error + 'np node)
    \<Rightarrow> 'np node \<Rightarrow> ('np, 'ep) store \<Rightarrow> (error + unit) \<times> ('np, 'ep) store" where
  "merge_node1 g2 result nodeResolver node h =
     (case getNode (address node) (h ! g2) of
        Some node2 \<Rightarrow>
          (case nodeResolver node node2 of
             Inl e \<Rightarrow> (Inl e, h)
           | Inr resolved \<Rightarrow> call result (addNode resolved) h)
      | None \<Rightarrow> call result (addNode node) h)"

definition merge_node2 :: "nat \<Rightarrow> 'np node \<Rightarrow> ('np, 'ep) store
    \<Rightarrow> (error + unit) \<times> ('np, 'ep) store" where
  "merge_node2 result node h =
     (if getNode (address node) (h ! result) = None then call result (addNode node) h
      else (Inr (), h))"

definition merge_edge1 :: "nat \<Rightarrow> nat \<Rightarrow> ('ep edge \<Rightarrow> 'ep edge \<Rightarrow> error + 'ep edge)
    \<Rightarrow> 'ep edge \<Rightarrow> ('np, 'ep) store \<Rightarrow> (error + unit) \<times> ('np, 'ep) store" where
  "merge_edge1 g2 result edgeResolver edge h =
     (case getEdge (address edge) (h ! g2) of
        Some edge2 \<Rightarrow>
          (case edgeResolver edge edge2 of
             Inl e \<Rightarrow> (Inl e, h)
           | Inr resolved \<Rightarrow> call result (addEdge resolved) h)
      | None \<Rightarrow> call result (addEdge edge) h)"

definition merge_edge2 :: "nat \<Rightarrow> 'ep edge \<Rightarrow> ('np, 'ep) store
    \<Rightarrow> (error + unit) \<times> ('np, 'ep) store" where
  "merge_edge2 result edge h =
     (if getEdge (address edge) (h ! result) = None then call result (addEdge edge) h
      else (Inr (), h))"

definition merge :: "nat \<Rightarrow> nat \<Rightarrow> ('np node \<Rightarrow> 'np node \<Rightarrow> error + 'np node)
    \<Rightarrow> ('ep edge \<Rightarrow> 'ep edge \<Rightarrow> error + 'ep edge)
    \<Rightarrow> ('np, 'ep) store \<Rightarrow> (error + nat) \<times> ('np, 'ep) store" where
  "merge g1 g2 nodeResolver edgeResolver h =
     (case new_Graph h of
        (result, h0) \<Rightarrow>
          (case forEach (merge_node1 g2 result nodeResolver) (getAllNodes (h0 ! g1)) h0 of
             (Inl e, h1) \<Rightarrow> (Inl e, h1)
           | (Inr _, h1) \<Rightarrow>
               (case forEach (merge_node2 result) (getAllNodes (h1 ! g2)) h1 of
                  (Inl e, h2) \<Rightarrow> (Inl e, h2)
                | (Inr _, h2) \<Rightarrow>
                    (case forEach (merge_edge1 g2 result edgeResolver) (getAllEdges (h2 ! g1)) h2 of
                       (Inl e, h3) \<Rightarrow> (Inl e, h3)
                     | (Inr _, h3) \<Rightarrow>
                         (case forEach (merge_edge2 result) (getAllEdges (h3 ! g2)) h3 of
                            (Inl e, h4) \<Rightarrow> (Inl e, h4)
                          | (Inr _, h4) \<Rightarrow> (Inr result, h4))))))"

text \<open>
  \<open>conservativeResolver\<close> compares its two values with \<open>deepEqual\<close>, which the
  model gives it for the type of the values.
\<close>

definition conservativeResolver :: "('r addressable_scheme \<Rightarrow> 'r addressable_scheme \<Rightarrow> bool)
    \<Rightarrow> string \<Rightarrow> 'r addressable_scheme \<Rightarrow> 'r addressable_scheme
    \<Rightarrow> error + 'r addressable_scheme" where
  "conservativeResolver deepEqual kinds a b =
     (if deepEqual a b then Inr a
      else Inl (Error (''distinct '' @ kinds @ '' with address '' @ JSON_stringify (address a))))"

definition mergeConservative :: "nat \<Rightarrow> nat \<Rightarrow> ('np, 'ep) store
    \<Rightarrow> (error + nat) \<times> ('np, 'ep) store" where
  "mergeConservative g1 g2 h =
     merge g1 g2
       (\<lambda>u v. conservativeResolver deepEqual_node ''nodes'' u v)
       (\<lambda>e f. conservativeResolver deepEqual_edge ''edges'' e f) h"

section \<open>Invariants\<close>

definition keys :: "'u AddressMap \<Rightarrow> string list" where
  "keys m = map fst m"

text \<open>
  The invariant of an \<open>AddressMap\<close> filled by \<open>add\<close>: no key twice, and every value
  is stored at the serialization of its own address.
\<close>

definition keyed_by_address :: "'r addressable_scheme AddressMap \<Rightarrow> bool" where
  "keyed_by_address m \<longleftrightarrow>
     distinct (keys m) \<and> (\<forall>(k, u) \<in> set m. k = JSON_stringify (address u))"

text \<open>The address \<open>x\<close> is exactly once in the list that the index holds at \<open>a\<close>.\<close>

definition once_at :: "address \<Rightarrow> address \<Rightarrow> adjacency AddressMap \<Rightarrow> bool" where
  "once_at a x index \<longleftrightarrow>
     (case get a index of None \<Rightarrow> False | Some entry \<Rightarrow> count_list (edges entry) x = 1)"

text \<open>
  The two invariants of the comment on \<open>_outEdges\<close> and \<open>_inEdges\<close>: the three
  key sets agree, and every edge is once in the out-list of its source and once in
  the in-list of its destination.
\<close>

definition graph_invariant :: "('np, 'ep) graph \<Rightarrow> bool" where
  "graph_invariant g \<longleftrightarrow>
     set (keys (u_outEdges g)) = set (keys (u_nodes g)) \<and>
     set (keys (u_inEdges g)) = set (keys (u_nodes g)) \<and>
     (\<forall>e \<in> set (getAllEdges g).
        once_at (src e) (address e) (u_outEdges g) \<and>
        once_at (dst e) (address e) (u_inEdges g))"

text \<open>
  What every graph built by the methods satisfies besides: its maps are keyed by
  address, and an index lists only addresses of stored edges.
\<close>

definition lists_stored_edges :: "adjacency AddressMap \<Rightarrow> ('np, 'ep) graph \<Rightarrow> bool" where
  "lists_stored_edges index g \<longleftrightarrow>
     (\<forall>entry \<in> set (getAll index). \<forall>x \<in> set (edges entry). getEdge x g \<noteq> None)"

definition well_formed :: "('np, 'ep) graph \<Rightarrow> bool" where
  "well_formed g \<longleftrightarrow>
     graph_invariant g \<and>
     keyed_by_address (u_nodes g) \<and>
     keyed_by_address (u_edges g) \<and>
     distinct (keys (u_outEdges g)) \<and>
     distinct (keys (u_inEdges g)) \<and>
     lists_stored_edges (u_outEdges g) g \<and>
     lists_stored_edges (u_inEdges g) g"

text \<open>
  What holds of the store all through \<open>merge\<close>: the graphs that existed before the
  call are as they were, and the one new graph, at index \<open>length h\<close>, is well formed.
\<close>

definition merging :: "('np, 'ep) store \<Rightarrow> ('np, 'ep) store \<Rightarrow> bool" where
  "merging h h' \<longleftrightarrow>
     length h' = Suc (length h) \<and> take (length h) h' = h \<and> well_formed (h' ! length h)"

text \<open>
  The maps that the class can make: the empty map, a map after \<open>add\<close> of a value
  whose address is an object (no key twice), and a map that \<open>fromJSON\<close> returns.
\<close>

inductive built :: "'r addressable_scheme AddressMap \<Rightarrow> bool" where
  built_new: "built AddressMap_new"
| built_add: "built m \<Longrightarrow> distinct (map fst (address u)) \<Longrightarrow> built (add u m)"
| built_fromJSON: "fromJSON json = Inr m \<Longrightarrow> built m"

text \<open>
  What the round trip needs of a map: no key twice, and every key parses to an
  address that is deep-equal to the address of the value stored at the key.
\<close>

definition rehydrates :: "'r addressable_scheme AddressMap \<Rightarrow> bool" where
  "rehydrates m \<longleftrightarrow>
     distinct (keys m) \<and>
     (\<forall>(k, u) \<in> set m.
        case JSON_parse k of None \<Rightarrow> False | Some a \<Rightarrow> deepEqual_address a (address u))"

text \<open>
  Two graphs agree when every node of the first whose address holds a node in the
  second is deep-equal to that node, and the same for the edges.
\<close>

definition agree :: "('np, 'ep) graph \<Rightarrow> ('np, 'ep) graph \<Rightarrow> bool" where
  "agree g1 g2 \<longleftrightarrow>
     (\<forall>n1 \<in> set (getAllNodes g1).
        case getNode (address n1) g2 of None \<Rightarrow> True | Some n2 \<Rightarrow> deepEqual_node n1 n2) \<and>
     (\<forall>e1 \<in> set (getAllEdges g1).
        case getEdge (address e1) g2 of None \<Rightarrow> True | Some e2 \<Rightarrow> deepEqual_edge e1 e2)"

section \<open>Example data\<close>

text \<open>
  The address of the mansion of \<open>address.test.js\<close>, with its fields in the order
  in which \<open>makeAddress\<close> of the test assigns them, and the same address with its
  fields in the order in which \<open>makeNodeAddress\<close> of the GitHub parser assigns them.
\<close>

definition test_address :: address where
  "test_address =
     [(''repositoryName'', ''sourcecred/suburbia''), (''pluginName'', ''houseville''),
      (''id'', ''mansion''), (''type'', ''HOUSETYPE'')]"

definition parser_address :: address where
  "parser_address =
     [(''pluginName'', ''houseville''), (''repositoryName'', ''sourcecred/suburbia''),
      (''type'', ''HOUSETYPE''), (''id'', ''mansion'')]"

text \<open>
  Houses, after \<open>address.test.js\<close>: \<open>makeAddress\<close> as in the test, nodes whose
  payload is a number of beds, and edges between them.
\<close>

definition makeAddress :: "string \<Rightarrow> address" where
  "makeAddress i =
     [(''repositoryName'', ''sourcecred/suburbia''), (''pluginName'', ''houseville''),
      (''id'', i), (''type'', ''HOUSETYPE'')]"

definition mansion :: "nat node" where
  "mansion = \<lparr>address = makeAddress ''mansion'', payload = 10\<rparr>"

definition fakeMansion :: "nat node" where
  "fakeMansion = \<lparr>address = makeAddress ''mansion'', payload = 33\<rparr>"

definition mattressStore :: "nat node" where
  "mattressStore = \<lparr>address = makeAddress ''mattressStore'', payload = 99\<rparr>"

definition warehouse :: "nat node" where
  "warehouse = \<lparr>address = makeAddress ''warehouse'', payload = 7\<rparr>"

definition delivery :: "nat edge" where
  "delivery = \<lparr>address = makeAddress ''delivery'', payload = 1,
     src = makeAddress ''mattressStore'', dst = makeAddress ''mansion''\<rparr>"

definition fakeDelivery :: "nat edge" where
  "fakeDelivery = \<lparr>address = makeAddress ''delivery'', payload = 2,
     src = makeAddress ''warehouse'', dst = makeAddress ''mansion''\<rparr>"

definition toWarehouse :: "nat edge" where
  "toWarehouse = \<lparr>address = makeAddress ''toWarehouse'', payload = 3,
     src = makeAddress ''mansion'', dst = makeAddress ''warehouse''\<rparr>"

definition fromWarehouse :: "nat edge" where
  "fromWarehouse = \<lparr>address = makeAddress ''fromWarehouse'', payload = 4,
     src = makeAddress ''warehouse'', dst = makeAddress ''mansion''\<rparr>"

definition selfLoop :: "nat edge" where
  "selfLoop = \<lparr>address = makeAddress ''selfLoop'', payload = 5,
     src = makeAddress ''mansion'', dst = makeAddress ''mansion''\<rparr>"

text \<open>The graphs with the mansion; with both houses; with both houses and the delivery.\<close>

definition oneHouse :: "(nat, nat) graph" where
  "oneHouse = snd (addNode mansion Graph_new)"

definition twoHouses :: "(nat, nat) graph" where
  "twoHouses = snd (addNode mattressStore oneHouse)"

definition suburbia :: "(nat, nat) graph" where
  "suburbia = snd (addEdge delivery twoHouses)"

text \<open>The graph with the fake mansion.\<close>

definition fakeHouse :: "(nat, nat) graph" where
  "fakeHouse = snd (addNode fakeMansion Graph_new)"

section \<open>Parsing a serialized address gives the address back\<close>

lemma hex_value_hex_digit: "d < 16 \<Longrightarrow> hex_value (hex_digit d) = Some d"
proof -
  assume "d < 16"
  then have "d = 0 \<or> d = 1 \<or> d = 2 \<or> d = 3 \<or> d = 4 \<or> d = 5 \<or> d = 6 \<or> d = 7 \<or>
    d = 8 \<or> d = 9 \<or> d = 10 \<or> d = 11 \<or> d = 12 \<or> d = 13 \<or> d = 14 \<or> d = 15"
    by arith
  then show ?thesis
    by (elim disjE) (simp_all add: hex_value_def hex_digit_def)
qed

lemma unicode_escape_control:
  assumes "(of_char c :: nat) < 0x20"
  shows "unicode_escape (CHR ''0'') (CHR ''0'')
           (hex_digit (of_char c div 16)) (hex_digit (of_char c mod 16)) = Some c"
proof -
  have z: "hex_value (CHR ''0'') = Some 0"
    by (simp add: hex_value_def)
  have d3: "hex_value (hex_digit (of_char c div 16)) = Some (of_char c div 16)"
    using assms by (intro hex_value_hex_digit) simp
  have d4: "hex_value (hex_digit (of_char c mod 16)) = Some (of_char c mod 16)"
    by (intro hex_value_hex_digit) simp
  have "char_of (16 * ((of_char c :: nat) div 16) + of_char c mod 16) = c"
    by simp
  then show ?thesis
    by (simp add: unicode_escape_def z d3 d4)
qed

lemma parse_string_body_QuoteJSONChar:
  "parse_string_body (QuoteJSONChar c @ rest) = cons_result c (parse_string_body rest)"
proof -
  consider (short) "c = CHR 0x08 \<or> c = CHR 0x09 \<or> c = CHR 0x0A \<or> c = CHR 0x0C \<or> c = CHR 0x0D
      \<or> c = dquote \<or> c = backslash"
    | (control) "c \<noteq> CHR 0x08" "c \<noteq> CHR 0x09" "c \<noteq> CHR 0x0A" "c \<noteq> CHR 0x0C" "c \<noteq> CHR 0x0D"
        "c \<noteq> dquote" "c \<noteq> backslash" "(of_char c :: nat) < 0x20"
    | (plain) "c \<noteq> CHR 0x08" "c \<noteq> CHR 0x09" "c \<noteq> CHR 0x0A" "c \<noteq> CHR 0x0C" "c \<noteq> CHR 0x0D"
        "c \<noteq> dquote" "c \<noteq> backslash" "\<not> (of_char c :: nat) < 0x20"
    by blast
  then show ?thesis
  proof cases
    case short
    then show ?thesis
      by (elim disjE)
        (simp_all add: QuoteJSONChar_def parse_escape_def unescape_def dquote_def backslash_def)
  next
    case control
    then show ?thesis
      by (simp add: QuoteJSONChar_def parse_escape_def unicode_escape_control)
        (simp add: dquote_def backslash_def)
  next
    case plain
    then show ?thesis
      by (simp add: QuoteJSONChar_def)
  qed
qed

lemma parse_string_body_quoted:
  "parse_string_body (concat (map QuoteJSONChar s) @ dquote # rest) = Some (s, rest)"
  by (induction s) (simp_all add: parse_string_body_QuoteJSONChar cons_result_def)

lemma parse_string_QuoteJSONString:
  "parse_string (QuoteJSONString s @ rest) = Some (s, rest)"
  by (simp add: parse_string_def QuoteJSONString_def parse_string_body_quoted)

lemma skip_ws_token:
  "\<not> is_ws c \<Longrightarrow> skip_ws (c # s) = c # s"
  by (simp add: skip_ws_def)

lemma not_ws_tokens:
  "\<not> is_ws dquote" "\<not> is_ws (CHR '':'')" "\<not> is_ws (CHR '','')"
  "\<not> is_ws (CHR ''{'')" "\<not> is_ws (CHR ''}'')"
  by (simp_all add: is_ws_def dquote_def)

lemma skip_ws_QuoteJSONString:
  "skip_ws (QuoteJSONString s @ rest) = QuoteJSONString s @ rest"
  by (simp add: QuoteJSONString_def skip_ws_token not_ws_tokens)

lemma parse_member_SerializeJSONProperty:
  "parse_member (SerializeJSONProperty kv @ rest) = Some (kv, rest)"
  by (simp add: parse_member_def SerializeJSONProperty_def parse_string_QuoteJSONString
      skip_ws_token not_ws_tokens skip_ws_QuoteJSONString)

lemma skip_ws_SerializeJSONProperty:
  "skip_ws (SerializeJSONProperty kv @ rest) = SerializeJSONProperty kv @ rest"
  by (simp add: SerializeJSONProperty_def skip_ws_QuoteJSONString)

lemma skip_ws_Nil: "skip_ws [] = []"
  by (simp add: skip_ws_def)

lemma parse_members_join_comma:
  "kvs \<noteq> [] \<Longrightarrow>
   parse_members (join_comma (map SerializeJSONProperty kvs) @ ''}'') = Some kvs"
proof (induction kvs)
  case Nil
  then show ?case by simp
next
  case (Cons kv kvs)
  show ?case
  proof (cases kvs)
    case Nil
    show ?thesis
      unfolding Nil
      by (subst parse_members.simps)
        (simp add: parse_member_SerializeJSONProperty skip_ws_token not_ws_tokens skip_ws_Nil)
  next
    case (Cons kv' kvs')
    with Cons.IH have IH: "parse_members (join_comma (map SerializeJSONProperty kvs) @ ''}'')
        = Some kvs"
      by simp
    have sk: "skip_ws (join_comma (map SerializeJSONProperty kvs) @ ''}'')
        = join_comma (map SerializeJSONProperty kvs) @ ''}''"
      unfolding Cons by (cases kvs') (simp_all add: skip_ws_SerializeJSONProperty)
    have j: "join_comma (map SerializeJSONProperty (kv # kvs)) @ ''}''
        = SerializeJSONProperty kv @ CHR '','' # (join_comma (map SerializeJSONProperty kvs) @ ''}'')"
      unfolding Cons by simp
    show ?thesis
      unfolding j
      by (subst parse_members.simps)
        (simp add: parse_member_SerializeJSONProperty skip_ws_token not_ws_tokens sk IH)
  qed
qed

lemma parse_object_JSON_stringify: "parse_object (JSON_stringify a) = Some a"
proof (cases a)
  case Nil
  then show ?thesis
    by (simp add: parse_object_def JSON_stringify_def skip_ws_token not_ws_tokens skip_ws_Nil)
next
  case (Cons kv kvs)
  have "join_comma (map SerializeJSONProperty (kv # kvs)) @ ''}''
      = dquote # tl (join_comma (map SerializeJSONProperty (kv # kvs)) @ ''}'')"
    by (cases kvs) (simp_all add: SerializeJSONProperty_def QuoteJSONString_def)
  then obtain t where t: "join_comma (map SerializeJSONProperty (kv # kvs)) @ ''}'' = dquote # t"
    by blast
  have "parse_members (dquote # t) = Some a"
    using parse_members_join_comma [of a] Cons t by simp
  moreover have "dquote \<noteq> CHR ''}''"
    by (simp add: dquote_def)
  ultimately show ?thesis
    using Cons t
    by (simp add: parse_object_def JSON_stringify_def skip_ws_token not_ws_tokens)
qed

lemma JSON_stringify_inject: "JSON_stringify a = JSON_stringify b \<longleftrightarrow> a = b"
  by (metis parse_object_JSON_stringify option.inject)

lemma object_of_members_distinct:
  "distinct (map fst kvs) \<Longrightarrow> object_of_members kvs = kvs"
proof -
  have "distinct (map fst (acc @ kvs)) \<Longrightarrow>
      fold (\<lambda>kv obj. AList.update (fst kv) (snd kv) obj) kvs acc = acc @ kvs" for acc
  proof (induction kvs arbitrary: acc)
    case Nil
    then show ?case by simp
  next
    case (Cons kv kvs)
    have "AList.update (fst kv) (snd kv) acc = acc @ [kv]"
      using Cons.prems by (induction acc) auto
    with Cons.IH [of "acc @ [kv]"] Cons.prems show ?case by simp
  qed
  from this [of "[]"] show "distinct (map fst kvs) \<Longrightarrow> object_of_members kvs = kvs"
    by (simp add: object_of_members_def)
qed

lemma JSON_parse_JSON_stringify:
  "distinct (map fst a) \<Longrightarrow> JSON_parse (JSON_stringify a) = Some a"
  by (simp add: JSON_parse_def parse_object_JSON_stringify object_of_members_distinct)

section \<open>C1: the key of an address\<close>

lemma same_order_fields_equal:
  "map fst a = map fst b \<Longrightarrow> distinct (map fst a) \<Longrightarrow>
   \<forall>k \<in> set (map fst a). map_of a k = map_of b k \<Longrightarrow> a = b"
proof (induction a arbitrary: b)
  case Nil
  then show ?case by simp
next
  case (Cons kv a)
  then obtain kv' b' where b: "b = kv' # b'"
    by (cases b) auto
  with Cons.prems have k: "fst kv = fst kv'" and ks: "map fst a = map fst b'"
    by simp_all
  from Cons.prems(3) b k have "snd kv = snd kv'"
    by (cases kv; cases kv') auto
  with k have kv: "kv = kv'"
    by (simp add: prod_eq_iff)
  have "\<forall>k \<in> set (map fst a). map_of a k = map_of b' k"
  proof
    fix x assume x: "x \<in> set (map fst a)"
    with Cons.prems(2) have ne: "x \<noteq> fst kv" by force
    from x have "x \<in> set (map fst (kv # a))" by simp
    with Cons.prems(3) have "map_of (kv # a) x = map_of b x" by blast
    with ne b kv show "map_of a x = map_of b' x"
      by (cases kv') (simp split: if_splits)
  qed
  with Cons.IH [OF ks] Cons.prems(2) have "a = b'" by simp
  with kv b show ?case by simp
qed

text \<open>
  C1, as stated: two addresses have the same key if and only if they are equal field
  by field, whatever the order in which their fields were assigned. The code does
  not do this: the key is \<open>JSON.stringify\<close> of the address object, which writes the
  fields in assignment order. The address of the test and the same address built in
  the order of the GitHub parser are equal field by field and have different keys.
\<close>

theorem serialize_order_counterexample:
  "is_address test_address \<and> is_address parser_address \<and>
   fieldwise_equal test_address parser_address \<and>
   JSON_stringify test_address \<noteq> JSON_stringify parser_address"
  by (simp add: JSON_stringify_inject)
    (simp add: is_address_def test_address_def parser_address_def fieldwise_equal_def field_def
      insert_commute)

text \<open>
  C1, amended: the key is an injective function of the fields taken in their
  assignment order. Two addresses have the same key if and only if their fields were
  assigned in the same order and they are equal field by field.
\<close>

theorem serialize_equal_iff:
  assumes "is_address a" and "is_address b"
  shows "JSON_stringify a = JSON_stringify b \<longleftrightarrow> map fst a = map fst b \<and> fieldwise_equal a b"
proof
  assume "JSON_stringify a = JSON_stringify b"
  then have "a = b" by (simp add: JSON_stringify_inject)
  then show "map fst a = map fst b \<and> fieldwise_equal a b"
    by (simp add: fieldwise_equal_def)
next
  assume h: "map fst a = map fst b \<and> fieldwise_equal a b"
  have "\<forall>k \<in> set (map fst a). map_of a k = map_of b k"
    using assms(1) h unfolding is_address_def fieldwise_equal_def field_def by auto
  with h assms(1) have "a = b"
    by (intro same_order_fields_equal) (simp_all add: is_address_def)
  then show "JSON_stringify a = JSON_stringify b" by simp
qed

theorem serialize_equal_iff_witness:
  "is_address test_address \<and> is_address test_address \<and>
   (JSON_stringify test_address = JSON_stringify test_address \<longleftrightarrow>
    map fst test_address = map fst test_address \<and> fieldwise_equal test_address test_address)"
proof -
  have a: "is_address test_address"
    by (simp add: is_address_def test_address_def insert_commute)
  from a serialize_equal_iff [OF a a] show ?thesis by simp
qed

section \<open>Lookups and example graphs\<close>

lemma get_add_same: "get (address u) (add u m) = Some u"
  by (simp add: get_def add_def update_conv')

lemma get_add: "get a (add u m) = (if JSON_stringify a = JSON_stringify (address u) then Some u else get a m)"
  by (simp add: get_def add_def update_conv')

lemma deepEqual_node_refl: "deepEqual_node n n"
  by (simp add: deepEqual_node_def deepEqual_address_def)

lemma deepEqual_edge_refl: "deepEqual_edge e e"
  by (simp add: deepEqual_edge_def deepEqual_address_def)

lemma makeAddress_inject: "makeAddress i = makeAddress j \<longleftrightarrow> i = j"
  by (simp add: makeAddress_def)

lemma oneHouse_eval:
  "oneHouse = \<lparr>u_nodes = [(JSON_stringify (makeAddress ''mansion''), mansion)],
     u_edges = [],
     u_outEdges = [(JSON_stringify (makeAddress ''mansion''),
        \<lparr>address = makeAddress ''mansion'', edges = []\<rparr>)],
     u_inEdges = [(JSON_stringify (makeAddress ''mansion''),
        \<lparr>address = makeAddress ''mansion'', edges = []\<rparr>)]\<rparr>"
  by (simp add: oneHouse_def addNode_def Graph_new_def AddressMap_new_def getNode_def get_def
      add_def mansion_def)

lemma twoHouses_eval:
  "twoHouses = \<lparr>u_nodes = [(JSON_stringify (makeAddress ''mansion''), mansion),
       (JSON_stringify (makeAddress ''mattressStore''), mattressStore)],
     u_edges = [],
     u_outEdges = [(JSON_stringify (makeAddress ''mansion''),
        \<lparr>address = makeAddress ''mansion'', edges = []\<rparr>),
       (JSON_stringify (makeAddress ''mattressStore''),
        \<lparr>address = makeAddress ''mattressStore'', edges = []\<rparr>)],
     u_inEdges = [(JSON_stringify (makeAddress ''mansion''),
        \<lparr>address = makeAddress ''mansion'', edges = []\<rparr>),
       (JSON_stringify (makeAddress ''mattressStore''),
        \<lparr>address = makeAddress ''mattressStore'', edges = []\<rparr>)]\<rparr>"
  by (simp add: twoHouses_def oneHouse_eval addNode_def getNode_def get_def
      add_def mattressStore_def JSON_stringify_inject makeAddress_inject)

lemma suburbia_eval:
  "suburbia = \<lparr>u_nodes = [(JSON_stringify (makeAddress ''mansion''), mansion),
       (JSON_stringify (makeAddress ''mattressStore''), mattressStore)],
     u_edges = [(JSON_stringify (makeAddress ''delivery''), delivery)],
     u_outEdges = [(JSON_stringify (makeAddress ''mansion''),
        \<lparr>address = makeAddress ''mansion'', edges = []\<rparr>),
       (JSON_stringify (makeAddress ''mattressStore''),
        \<lparr>address = makeAddress ''mattressStore'', edges = [makeAddress ''delivery'']\<rparr>)],
     u_inEdges = [(JSON_stringify (makeAddress ''mansion''),
        \<lparr>address = makeAddress ''mansion'', edges = [makeAddress ''delivery'']\<rparr>),
       (JSON_stringify (makeAddress ''mattressStore''),
        \<lparr>address = makeAddress ''mattressStore'', edges = []\<rparr>)]\<rparr>"
  by (simp add: suburbia_def twoHouses_eval addEdge_def getEdge_def getNode_def get_def
      add_def push_edge_def delivery_def JSON_stringify_inject makeAddress_inject)

section \<open>C2: adding a node twice, and a conflicting node\<close>

lemma addNode_again: "addNode n (snd (addNode n g)) = addNode n g"
proof (cases "getNode (address n) g")
  case None
  then show ?thesis
    by (simp add: addNode_def getNode_def get_add_same deepEqual_node_refl)
next
  case (Some existing)
  then show ?thesis
    by (simp add: addNode_def)
qed

text \<open>
  C2: a second \<open>addNode\<close> with the same node does what the first did and leaves the
  graph as the first left it; when the first call returned, the second returns as
  well and changes nothing, so \<open>getAllNodes\<close> has the length it had after the first
  call. When the graph holds at the address of the node a deep-equal node, \<open>addNode\<close>
  returns and changes nothing; when it holds there a node that is not deep-equal,
  \<open>addNode\<close> throws \<open>node at address ... exists with distinct contents\<close> and leaves
  the whole graph as it was.
\<close>

theorem addNode_idempotent_or_conflict:
  "addNode n (snd (addNode n g)) = addNode n g \<and>
   (fst (addNode n g) = Inr () \<longrightarrow>
      addNode n (snd (addNode n g)) = (Inr (), snd (addNode n g))) \<and>
   length (getAllNodes (snd (addNode n (snd (addNode n g))))) =
     length (getAllNodes (snd (addNode n g))) \<and>
   (getNode (address n) g = Some existing \<and> deepEqual_node existing n \<longrightarrow>
      addNode n g = (Inr (), g)) \<and>
   (getNode (address n) g = Some existing \<and> \<not> deepEqual_node existing n \<longrightarrow>
      addNode n g =
        (Inl (Error (''node at address '' @ JSON_stringify (address n)
           @ '' exists with distinct contents'')), g))"
proof (intro conjI impI)
  show again: "addNode n (snd (addNode n g)) = addNode n g"
    by (rule addNode_again)
  show "addNode n (snd (addNode n g)) = (Inr (), snd (addNode n g))"
    if "fst (addNode n g) = Inr ()"
    using that again by (simp add: prod_eq_iff)
  show "length (getAllNodes (snd (addNode n (snd (addNode n g))))) =
      length (getAllNodes (snd (addNode n g)))"
    by (simp add: again)
  show "addNode n g = (Inr (), g)"
    if "getNode (address n) g = Some existing \<and> deepEqual_node existing n"
    using that by (simp add: addNode_def)
  show "addNode n g =
      (Inl (Error (''node at address '' @ JSON_stringify (address n)
         @ '' exists with distinct contents'')), g)"
    if "getNode (address n) g = Some existing \<and> \<not> deepEqual_node existing n"
    using that by (simp add: addNode_def)
qed

theorem addNode_idempotent_or_conflict_witness:
  "fst (addNode mansion (Graph_new :: (nat, nat) graph)) = Inr () \<and>
   addNode mansion (snd (addNode mansion (Graph_new :: (nat, nat) graph))) =
     (Inr (), snd (addNode mansion Graph_new)) \<and>
   getNode (address mansion) oneHouse = Some mansion \<and> deepEqual_node mansion mansion \<and>
   addNode mansion oneHouse = (Inr (), oneHouse) \<and>
   length (getAllNodes (snd (addNode mansion oneHouse))) = length (getAllNodes oneHouse) \<and>
   \<not> deepEqual_node mansion fakeMansion \<and>
   getNode (address fakeMansion) oneHouse = Some mansion \<and>
   addNode fakeMansion oneHouse =
      (Inl (Error (''node at address '' @ JSON_stringify (address fakeMansion)
         @ '' exists with distinct contents'')), oneHouse)"
proof -
  have first: "fst (addNode mansion (Graph_new :: (nat, nat) graph)) = Inr ()"
    by (simp add: addNode_def getNode_def get_def Graph_new_def AddressMap_new_def)
  have a: "getNode (address mansion) oneHouse = Some mansion"
    by (simp add: oneHouse_eval getNode_def get_def mansion_def)
  have a': "getNode (address fakeMansion) oneHouse = Some mansion"
    by (simp add: oneHouse_eval getNode_def get_def fakeMansion_def)
  have b: "\<not> deepEqual_node mansion fakeMansion"
    by (simp add: deepEqual_node_def mansion_def fakeMansion_def)
  have c: "deepEqual_node mansion mansion"
    by (rule deepEqual_node_refl)
  note new = addNode_idempotent_or_conflict [of mansion "Graph_new :: (nat, nat) graph" mansion]
  note same = addNode_idempotent_or_conflict [of mansion oneHouse mansion]
  note fake = addNode_idempotent_or_conflict [of fakeMansion oneHouse mansion]
  from new first have 1: "addNode mansion (snd (addNode mansion (Graph_new :: (nat, nat) graph))) =
     (Inr (), snd (addNode mansion Graph_new))"
    by blast
  from same a c have 2: "addNode mansion oneHouse = (Inr (), oneHouse)"
    by blast
  then have 3: "length (getAllNodes (snd (addNode mansion oneHouse))) = length (getAllNodes oneHouse)"
    by simp
  from fake a' b have 4: "addNode fakeMansion oneHouse =
      (Inl (Error (''node at address '' @ JSON_stringify (address fakeMansion)
         @ '' exists with distinct contents'')), oneHouse)"
    by blast
  from first 1 a c 2 3 b a' 4 show ?thesis
    by (intro conjI)
qed

section \<open>C3: an edge with a missing endpoint\<close>

text \<open>
  C3, as stated: whenever no node exists at \<open>e.src\<close> or at \<open>e.dst\<close>, \<open>addEdge\<close>
  fails with the error of a missing endpoint. The code checks for an edge stored at
  \<open>e.address\<close> first: in the graph with the delivery, an edge at the address of the
  delivery with other contents and a source that does not exist is rejected as a
  conflict, not as a missing endpoint.
\<close>

theorem addEdge_conflict_before_endpoints_counterexample:
  "getNode (src fakeDelivery) suburbia = None \<and>
   fst (addEdge fakeDelivery suburbia) =
     Inl (Error (''edge at address '' @ JSON_stringify (address fakeDelivery)
       @ '' exists with distinct contents'')) \<and>
   fst (addEdge fakeDelivery suburbia) \<noteq>
     Inl (Error (''source '' @ JSON_stringify (src fakeDelivery) @ '' does not exist'')) \<and>
   fst (addEdge fakeDelivery suburbia) \<noteq>
     Inl (Error (''source '' @ JSON_stringify (dst fakeDelivery) @ '' does not exist''))"
  by (simp add: suburbia_eval addEdge_def getEdge_def getNode_def get_def fakeDelivery_def
      delivery_def deepEqual_edge_def deepEqual_address_def JSON_stringify_inject
      makeAddress_inject)

text \<open>
  C3, amended: when no node exists at \<open>e.src\<close> or at \<open>e.dst\<close>, \<open>addEdge\<close> leaves
  the graph, and so \<open>getAllEdges\<close>, as it was, whatever it answers; and every error
  that \<open>addEdge\<close> throws from one of its checks leaves the graph as it was. What it
  answers follows the order of the checks. With an edge stored at \<open>e.address\<close>, a
  deep-equal one makes the call return and another one makes it throw
  \<open>edge at address ... exists with distinct contents\<close>. With no edge stored there,
  a missing source makes it throw \<open>source ... does not exist\<close> with the address of
  the source, and a missing destination (the source existing) makes it throw an error
  \<open>... does not exist\<close> with the address of the destination; how that error calls
  the destination is the matter of C5 and is left open here.
\<close>

theorem addEdge_missing_endpoint:
  "(getNode (src e) g = None \<or> getNode (dst e) g = None \<longrightarrow>
      snd (addEdge e g) = g \<and> getAllEdges (snd (addEdge e g)) = getAllEdges g) \<and>
   (getEdge (address e) g = None \<and> getNode (src e) g = None \<longrightarrow>
      addEdge e g =
        (Inl (Error (''source '' @ JSON_stringify (src e) @ '' does not exist'')), g)) \<and>
   (getEdge (address e) g = None \<and> getNode (src e) g \<noteq> None \<and> getNode (dst e) g = None \<longrightarrow>
      (\<exists>label. addEdge e g =
        (Inl (Error (label @ JSON_stringify (dst e) @ '' does not exist'')), g))) \<and>
   (getEdge (address e) g = Some existing \<and> \<not> deepEqual_edge existing e \<longrightarrow>
      addEdge e g =
        (Inl (Error (''edge at address '' @ JSON_stringify (address e)
           @ '' exists with distinct contents'')), g)) \<and>
   (getEdge (address e) g = Some existing \<and> deepEqual_edge existing e \<longrightarrow>
      addEdge e g = (Inr (), g)) \<and>
   (fst (addEdge e g) = Inl (Error msg) \<longrightarrow> snd (addEdge e g) = g)"
proof (intro conjI impI)
  assume "getNode (src e) g = None \<or> getNode (dst e) g = None"
  then show "snd (addEdge e g) = g"
    by (auto simp: addEdge_def split: option.splits)
  then show "getAllEdges (snd (addEdge e g)) = getAllEdges g"
    by simp
next
  assume "getEdge (address e) g = None \<and> getNode (src e) g = None"
  then show "addEdge e g =
      (Inl (Error (''source '' @ JSON_stringify (src e) @ '' does not exist'')), g)"
    by (simp add: addEdge_def)
next
  assume "getEdge (address e) g = None \<and> getNode (src e) g \<noteq> None \<and> getNode (dst e) g = None"
  then have "addEdge e g =
      (Inl (Error (''source '' @ JSON_stringify (dst e) @ '' does not exist'')), g)"
    by (auto simp: addEdge_def)
  then show "\<exists>label. addEdge e g =
      (Inl (Error (label @ JSON_stringify (dst e) @ '' does not exist'')), g)"
    by (rule exI [of _ "''source ''"])
next
  assume "getEdge (address e) g = Some existing \<and> \<not> deepEqual_edge existing e"
  then show "addEdge e g =
      (Inl (Error (''edge at address '' @ JSON_stringify (address e)
         @ '' exists with distinct contents'')), g)"
    by (simp add: addEdge_def)
next
  assume "getEdge (address e) g = Some existing \<and> deepEqual_edge existing e"
  then show "addEdge e g = (Inr (), g)"
    by (simp add: addEdge_def)
next
  assume "fst (addEdge e g) = Inl (Error msg)"
  then show "snd (addEdge e g) = g"
    by (auto simp: addEdge_def Let_def split: option.splits if_splits)
qed

theorem addEdge_missing_endpoint_witness:
  "getNode (dst toWarehouse) suburbia = None \<and> snd (addEdge toWarehouse suburbia) = suburbia \<and>
   getAllEdges (snd (addEdge toWarehouse suburbia)) = getAllEdges suburbia \<and>
   getEdge (address fromWarehouse) suburbia = None \<and> getNode (src fromWarehouse) suburbia = None \<and>
   addEdge fromWarehouse suburbia =
     (Inl (Error (''source '' @ JSON_stringify (src fromWarehouse) @ '' does not exist'')),
      suburbia) \<and>
   getEdge (address toWarehouse) suburbia = None \<and> getNode (src toWarehouse) suburbia \<noteq> None \<and>
   (\<exists>label. addEdge toWarehouse suburbia =
     (Inl (Error (label @ JSON_stringify (dst toWarehouse) @ '' does not exist'')), suburbia)) \<and>
   getEdge (address fakeDelivery) suburbia = Some delivery \<and>
   \<not> deepEqual_edge delivery fakeDelivery \<and> getNode (src fakeDelivery) suburbia = None \<and>
   addEdge fakeDelivery suburbia =
     (Inl (Error (''edge at address '' @ JSON_stringify (address fakeDelivery)
        @ '' exists with distinct contents'')), suburbia) \<and>
   getEdge (address delivery) suburbia = Some delivery \<and> deepEqual_edge delivery delivery \<and>
   addEdge delivery suburbia = (Inr (), suburbia)"
proof -
  have t1: "getNode (dst toWarehouse) suburbia = None"
    and t2: "getEdge (address toWarehouse) suburbia = None"
    and t3: "getNode (src toWarehouse) suburbia \<noteq> None"
    by (simp_all add: suburbia_eval getNode_def getEdge_def get_def toWarehouse_def
        JSON_stringify_inject makeAddress_inject)
  have f1: "getEdge (address fromWarehouse) suburbia = None"
    and f2: "getNode (src fromWarehouse) suburbia = None"
    by (simp_all add: suburbia_eval getNode_def getEdge_def get_def fromWarehouse_def
        JSON_stringify_inject makeAddress_inject)
  have d1: "getEdge (address fakeDelivery) suburbia = Some delivery"
    and d2: "getNode (src fakeDelivery) suburbia = None"
    and d3: "getEdge (address delivery) suburbia = Some delivery"
    by (simp_all add: suburbia_eval getNode_def getEdge_def get_def fakeDelivery_def delivery_def
        JSON_stringify_inject makeAddress_inject)
  have d4: "\<not> deepEqual_edge delivery fakeDelivery"
    by (simp add: deepEqual_edge_def delivery_def fakeDelivery_def)
  have d5: "deepEqual_edge delivery delivery"
    by (rule deepEqual_edge_refl)
  note w_to = addEdge_missing_endpoint [of toWarehouse suburbia delivery]
  note w_from = addEdge_missing_endpoint [of fromWarehouse suburbia delivery]
  note fake = addEdge_missing_endpoint [of fakeDelivery suburbia delivery]
  note same = addEdge_missing_endpoint [of delivery suburbia delivery]
  from w_to t1 have 1: "snd (addEdge toWarehouse suburbia) = suburbia"
    and 2: "getAllEdges (snd (addEdge toWarehouse suburbia)) = getAllEdges suburbia"
    by blast+
  from w_from f1 f2 have 3: "addEdge fromWarehouse suburbia =
     (Inl (Error (''source '' @ JSON_stringify (src fromWarehouse) @ '' does not exist'')),
      suburbia)"
    by blast
  from w_to t1 t2 t3 have 4: "\<exists>label. addEdge toWarehouse suburbia =
     (Inl (Error (label @ JSON_stringify (dst toWarehouse) @ '' does not exist'')), suburbia)"
    by blast
  from fake d1 d4 have 5: "addEdge fakeDelivery suburbia =
     (Inl (Error (''edge at address '' @ JSON_stringify (address fakeDelivery)
        @ '' exists with distinct contents'')), suburbia)"
    by blast
  from same d3 d5 have 6: "addEdge delivery suburbia = (Inr (), suburbia)"
    by blast
  from t1 1 2 f1 f2 3 t2 t3 4 d1 d4 d2 5 d3 d5 6 show ?thesis
    by (intro conjI)
qed

section \<open>C5: the wording of the error for a missing endpoint\<close>

text \<open>
  C5 asks for two errors that tell a missing source from a missing destination. The
  code throws \<open>source ... does not exist\<close> in both branches: in the graph with the
  two houses and the delivery, the edge from the mansion to a warehouse that does not
  exist (destination missing) and the edge from that warehouse to the mansion (source
  missing) fail with the same error, which calls the warehouse a source.
\<close>

theorem missing_dst_reported_as_source:
  "getNode (src toWarehouse) suburbia \<noteq> None \<and> getNode (dst toWarehouse) suburbia = None \<and>
   getNode (src fromWarehouse) suburbia = None \<and>
   fst (addEdge toWarehouse suburbia) =
     Inl (Error (''source '' @ JSON_stringify (makeAddress ''warehouse'') @ '' does not exist'')) \<and>
   fst (addEdge fromWarehouse suburbia) = fst (addEdge toWarehouse suburbia)"
  by (simp add: suburbia_eval addEdge_def getEdge_def getNode_def get_def toWarehouse_def
      fromWarehouse_def JSON_stringify_inject makeAddress_inject)

section \<open>Facts about an AddressMap\<close>

lemma set_update_subset: "set (AList.update k v al) \<subseteq> insert (k, v) (set al)"
  by (induction al) auto

lemma update_fresh: "k \<notin> set (map fst al) \<Longrightarrow> AList.update k v al = al @ [(k, v)]"
  by (induction al) auto

lemma set_values_update_subset:
  "set (map snd (AList.update k v al)) \<subseteq> insert v (set (map snd al))"
  using set_update_subset [of k v al] by auto

lemma get_None_iff: "get a m = None \<longleftrightarrow> JSON_stringify a \<notin> set (keys m)"
  by (simp add: get_def keys_def map_of_eq_None_iff)

lemma get_SomeD: "get a m = Some u \<Longrightarrow> u \<in> set (getAll m)"
  by (auto simp: get_def getAll_def dest!: map_of_SomeD intro: rev_image_eqI)

lemma keys_add: "set (keys (add u m)) = insert (JSON_stringify (address u)) (set (keys m))"
  by (simp add: keys_def add_def dom_update)

lemma keys_update: "set (keys (AList.update k v m)) = insert k (set (keys m))"
  by (simp add: keys_def dom_update)

lemma distinct_keys_add: "distinct (keys m) \<Longrightarrow> distinct (keys (add u m))"
  by (simp add: keys_def add_def distinct_update)

lemma getAll_add_subset: "set (getAll (add u m)) \<subseteq> insert u (set (getAll m))"
  unfolding getAll_def add_def by (rule set_values_update_subset)

lemma in_getAll_add: "u \<in> set (getAll (add u m))"
proof -
  have "map_of (AList.update (JSON_stringify (address u)) u m) (JSON_stringify (address u)) = Some u"
    by (simp add: update_conv')
  then show ?thesis
    unfolding getAll_def add_def by (auto dest!: map_of_SomeD intro: rev_image_eqI)
qed

lemma keyed_by_address_add:
  assumes "keyed_by_address m"
  shows "keyed_by_address (add u m)"
proof -
  have "\<forall>(k, v) \<in> set (add u m). k = JSON_stringify (address v)"
    using assms set_update_subset [of "JSON_stringify (address u)" u m]
    unfolding keyed_by_address_def add_def by auto
  with assms show ?thesis
    by (simp add: keyed_by_address_def distinct_keys_add)
qed

lemma keyed_by_address_entry:
  assumes "keyed_by_address m" and "u \<in> set (getAll m)"
  shows "(JSON_stringify (address u), u) \<in> set m"
proof -
  from assms(2) obtain k where "(k, u) \<in> set m"
    unfolding getAll_def by auto
  moreover from this assms(1) have "k = JSON_stringify (address u)"
    unfolding keyed_by_address_def by blast
  ultimately show ?thesis by simp
qed

lemma keyed_by_address_key:
  assumes "keyed_by_address m" and "u \<in> set (getAll m)"
  shows "JSON_stringify (address u) \<in> set (keys m)"
  using keyed_by_address_entry [OF assms] unfolding keys_def
  by (metis fst_conv image_eqI set_map)

lemma keyed_by_address_get:
  assumes "keyed_by_address m" and "u \<in> set (getAll m)"
  shows "get (address u) m = Some u"
proof -
  from assms(1) have "distinct (map fst m)"
    by (simp add: keyed_by_address_def keys_def)
  with keyed_by_address_entry [OF assms] show ?thesis
    by (simp add: get_def)
qed

section \<open>Pushing an edge address on an adjacency list\<close>

lemma push_edge_Some:
  assumes "JSON_stringify a \<in> set (keys index)"
  shows "\<exists>index'. push_edge a x index = Some index'"
proof -
  from assms have "get a index \<noteq> None"
    using get_None_iff [of a index] by simp
  then obtain entry where "get a index = Some entry"
    by blast
  then show ?thesis
    by (simp add: push_edge_def)
qed

lemma push_edge_keys:
  assumes "push_edge a x index = Some index'"
  shows "set (keys index') = set (keys index)"
proof -
  from assms obtain entry where e: "get a index = Some entry"
    and i: "index' = AList.update (JSON_stringify a) (entry\<lparr>edges := edges entry @ [x]\<rparr>) index"
    by (auto simp: push_edge_def split: option.splits)
  from e have "JSON_stringify a \<in> set (keys index)"
    using get_None_iff [of a index] by simp
  with i show ?thesis
    by (auto simp: keys_update)
qed

lemma push_edge_distinct:
  assumes "push_edge a x index = Some index'" and "distinct (keys index)"
  shows "distinct (keys index')"
proof -
  from assms(1) obtain entry where
    "index' = AList.update (JSON_stringify a) (entry\<lparr>edges := edges entry @ [x]\<rparr>) index"
    by (auto simp: push_edge_def split: option.splits)
  with assms(2) show ?thesis
    by (simp add: keys_def distinct_update)
qed

lemma push_edge_get:
  assumes "push_edge a x index = Some index'"
  shows "get b index' =
    (if JSON_stringify b = JSON_stringify a
     then map_option (\<lambda>entry. entry\<lparr>edges := edges entry @ [x]\<rparr>) (get a index)
     else get b index)"
  using assms by (auto simp: push_edge_def get_def update_conv' split: option.splits)

lemma push_edge_getAll:
  assumes "push_edge a x index = Some index'" and "entry' \<in> set (getAll index')"
  shows "entry' \<in> set (getAll index) \<or>
    (\<exists>entry \<in> set (getAll index). entry' = entry\<lparr>edges := edges entry @ [x]\<rparr>)"
proof -
  from assms(1) obtain entry where e: "get a index = Some entry"
    and i: "index' = AList.update (JSON_stringify a) (entry\<lparr>edges := edges entry @ [x]\<rparr>) index"
    by (auto simp: push_edge_def split: option.splits)
  from assms(2) i have "entry' \<in> set (map snd
      (AList.update (JSON_stringify a) (entry\<lparr>edges := edges entry @ [x]\<rparr>) index))"
    by (simp add: getAll_def)
  then have "entry' \<in> insert (entry\<lparr>edges := edges entry @ [x]\<rparr>) (set (map snd index))"
    by (rule subsetD [OF set_values_update_subset])
  then have "entry' = entry\<lparr>edges := edges entry @ [x]\<rparr> \<or> entry' \<in> set (getAll index)"
    by (simp add: getAll_def)
  with get_SomeD [OF e] show ?thesis by blast
qed

lemma once_at_push_other:
  assumes "push_edge a x index = Some index'" and "once_at b y index" and "y \<noteq> x"
  shows "once_at b y index'"
  using assms(2,3) unfolding once_at_def push_edge_get [OF assms(1)]
  by (auto simp: JSON_stringify_inject split: option.splits)

lemma once_at_push_new:
  assumes "push_edge a x index = Some index'"
    and "\<forall>entry \<in> set (getAll index). x \<notin> set (edges entry)"
  shows "once_at a x index'"
proof -
  from assms(1) obtain entry where e: "get a index = Some entry"
    by (auto simp: push_edge_def split: option.splits)
  with assms(2) have "x \<notin> set (edges entry)"
    by (auto dest: get_SomeD)
  then have "count_list (edges entry) x = 0"
    by (simp add: count_list_0_iff)
  with e show ?thesis
    unfolding once_at_def push_edge_get [OF assms(1)] by simp
qed

section \<open>The methods keep a graph well formed\<close>

lemma well_formed_Graph_new: "well_formed Graph_new"
  by (simp add: well_formed_def graph_invariant_def keyed_by_address_def lists_stored_edges_def
      Graph_new_def AddressMap_new_def keys_def getAllEdges_def getAll_def)

lemma well_formed_invariant: "well_formed g \<Longrightarrow> graph_invariant g"
  by (simp add: well_formed_def)

lemma once_at_key: "once_at a x index \<Longrightarrow> JSON_stringify a \<in> set (keys index)"
  using get_None_iff [of a index] by (auto simp: once_at_def split: option.splits)

lemma once_at_add_fresh:
  assumes "once_at a x index" and "JSON_stringify (address u) \<notin> set (keys index)"
  shows "once_at a x (add u index)"
proof -
  from once_at_key [OF assms(1)] assms(2) have "JSON_stringify a \<noteq> JSON_stringify (address u)"
    by auto
  with assms(1) show ?thesis
    by (simp add: once_at_def get_def add_def update_conv')
qed

lemma addNode_new:
  "getNode (address n) g = None \<Longrightarrow>
   addNode n g = (Inr (),
     g\<lparr>u_nodes := add n (u_nodes g),
       u_outEdges := add \<lparr>address = address n, edges = []\<rparr> (u_outEdges g),
       u_inEdges := add \<lparr>address = address n, edges = []\<rparr> (u_inEdges g)\<rparr>)"
  by (simp add: addNode_def)

lemma addNode_existing:
  "getNode (address n) g = Some existing \<Longrightarrow> snd (addNode n g) = g"
  by (simp add: addNode_def)

lemma lists_stored_edges_add_empty:
  assumes "lists_stored_edges index g" and "u_edges g' = u_edges g"
  shows "lists_stored_edges (add \<lparr>address = a, edges = []\<rparr> index) g'"
proof -
  have "\<forall>x \<in> set (edges entry). getEdge x g' \<noteq> None"
    if "entry \<in> set (getAll (add \<lparr>address = a, edges = []\<rparr> index))" for entry
  proof -
    from that getAll_add_subset have "entry = \<lparr>address = a, edges = []\<rparr> \<or> entry \<in> set (getAll index)"
      by blast
    with assms show ?thesis
      by (auto simp: lists_stored_edges_def getEdge_def)
  qed
  then show ?thesis
    unfolding lists_stored_edges_def by blast
qed

lemma well_formed_addNode:
  assumes "well_formed g"
  shows "well_formed (snd (addNode n g))"
proof (cases "getNode (address n) g")
  case (Some existing)
  with assms show ?thesis
    by (simp add: addNode_existing)
next
  case None
  define k where "k = JSON_stringify (address n)"
  define entry where "entry = \<lparr>address = address n, edges = []\<rparr>"
  define g' where "g' = g\<lparr>u_nodes := add n (u_nodes g),
       u_outEdges := add entry (u_outEdges g), u_inEdges := add entry (u_inEdges g)\<rparr>"
  from None have g': "snd (addNode n g) = g'"
    by (simp add: addNode_new g'_def entry_def)
  from assms have inv: "graph_invariant g"
    and kn: "keyed_by_address (u_nodes g)" and ke: "keyed_by_address (u_edges g)"
    and dout: "distinct (keys (u_outEdges g))" and din: "distinct (keys (u_inEdges g))"
    and lout: "lists_stored_edges (u_outEdges g) g" and lin: "lists_stored_edges (u_inEdges g) g"
    by (simp_all add: well_formed_def)
  from None have fresh: "k \<notin> set (keys (u_nodes g))"
    by (simp add: getNode_def get_None_iff k_def)
  with inv have fresh_out: "JSON_stringify (address entry) \<notin> set (keys (u_outEdges g))"
    and fresh_in: "JSON_stringify (address entry) \<notin> set (keys (u_inEdges g))"
    by (simp_all add: graph_invariant_def k_def entry_def)
  have "graph_invariant g'"
    unfolding graph_invariant_def
  proof (intro conjI ballI)
    show "set (keys (u_outEdges g')) = set (keys (u_nodes g'))"
      using inv by (simp add: g'_def keys_add graph_invariant_def entry_def)
    show "set (keys (u_inEdges g')) = set (keys (u_nodes g'))"
      using inv by (simp add: g'_def keys_add graph_invariant_def entry_def)
  next
    fix e assume "e \<in> set (getAllEdges g')"
    then have e: "e \<in> set (getAllEdges g)"
      by (simp add: g'_def getAllEdges_def)
    with inv have "once_at (src e) (address e) (u_outEdges g)"
      and "once_at (dst e) (address e) (u_inEdges g)"
      by (simp_all add: graph_invariant_def)
    with fresh_out fresh_in show "once_at (src e) (address e) (u_outEdges g')"
      and "once_at (dst e) (address e) (u_inEdges g')"
      by (simp_all add: g'_def once_at_add_fresh)
  qed
  moreover have "keyed_by_address (u_nodes g')"
    using kn by (simp add: g'_def keyed_by_address_add)
  moreover have "keyed_by_address (u_edges g')"
    using ke by (simp add: g'_def)
  moreover have "distinct (keys (u_outEdges g'))" "distinct (keys (u_inEdges g'))"
    using dout din by (simp_all add: g'_def distinct_keys_add)
  moreover have "lists_stored_edges (u_outEdges g') g'" "lists_stored_edges (u_inEdges g') g'"
    using lout lin by (simp_all add: g'_def entry_def lists_stored_edges_add_empty)
  ultimately show ?thesis
    unfolding g' well_formed_def by blast
qed

lemma addEdge_unchanged:
  "getEdge (address e) g \<noteq> None \<or> getNode (src e) g = None \<or> getNode (dst e) g = None \<Longrightarrow>
   snd (addEdge e g) = g"
  by (auto simp: addEdge_def split: option.splits)

lemma addEdge_new:
  assumes "getEdge (address e) g = None"
    and "getNode (src e) g \<noteq> None" and "getNode (dst e) g \<noteq> None"
    and "push_edge (src e) (address e) (u_outEdges g) = Some out"
    and "push_edge (dst e) (address e) (u_inEdges g) = Some inn"
  shows "addEdge e g = (Inr (),
     g\<lparr>u_edges := add e (u_edges g), u_outEdges := out, u_inEdges := inn\<rparr>)"
  using assms by (simp add: addEdge_def)

lemma addEdge_new_well_formed:
  assumes wf: "well_formed g"
    and new: "getEdge (address e) g = None"
    and s: "getNode (src e) g \<noteq> None" and d: "getNode (dst e) g \<noteq> None"
  shows "\<exists>out inn. push_edge (src e) (address e) (u_outEdges g) = Some out \<and>
     push_edge (dst e) (address e) (u_inEdges g) = Some inn \<and>
     well_formed (g\<lparr>u_edges := add e (u_edges g), u_outEdges := out, u_inEdges := inn\<rparr>)"
proof -
  from wf have inv: "graph_invariant g"
    and kn: "keyed_by_address (u_nodes g)" and ke: "keyed_by_address (u_edges g)"
    and dout: "distinct (keys (u_outEdges g))" and din: "distinct (keys (u_inEdges g))"
    and lout: "lists_stored_edges (u_outEdges g) g" and lin: "lists_stored_edges (u_inEdges g) g"
    by (simp_all add: well_formed_def)
  from s inv have "JSON_stringify (src e) \<in> set (keys (u_outEdges g))"
    by (simp add: getNode_def get_None_iff graph_invariant_def)
  then obtain out where out: "push_edge (src e) (address e) (u_outEdges g) = Some out"
    using push_edge_Some by blast
  from d inv have "JSON_stringify (dst e) \<in> set (keys (u_inEdges g))"
    by (simp add: getNode_def get_None_iff graph_invariant_def)
  then obtain inn where inn: "push_edge (dst e) (address e) (u_inEdges g) = Some inn"
    using push_edge_Some by blast
  define g' where "g' = g\<lparr>u_edges := add e (u_edges g), u_outEdges := out, u_inEdges := inn\<rparr>"
  have old: "getEdge x g' \<noteq> None" if "getEdge x g \<noteq> None" for x
    using that by (simp add: g'_def getEdge_def get_add)
  have this_edge: "getEdge (address e) g' = Some e"
    by (simp add: g'_def getEdge_def get_add_same)
  have not_listed_out: "\<forall>entry \<in> set (getAll (u_outEdges g)). address e \<notin> set (edges entry)"
    using lout new unfolding lists_stored_edges_def by blast
  have not_listed_in: "\<forall>entry \<in> set (getAll (u_inEdges g)). address e \<notin> set (edges entry)"
    using lin new unfolding lists_stored_edges_def by blast
  have "graph_invariant g'"
    unfolding graph_invariant_def
  proof (intro conjI ballI)
    show "set (keys (u_outEdges g')) = set (keys (u_nodes g'))"
      using inv push_edge_keys [OF out] by (simp add: g'_def graph_invariant_def)
    show "set (keys (u_inEdges g')) = set (keys (u_nodes g'))"
      using inv push_edge_keys [OF inn] by (simp add: g'_def graph_invariant_def)
  next
    fix e' assume "e' \<in> set (getAllEdges g')"
    then have "e' = e \<or> e' \<in> set (getAllEdges g)"
      using getAll_add_subset [of e "u_edges g"] by (auto simp: g'_def getAllEdges_def)
    then have "once_at (src e') (address e') out \<and> once_at (dst e') (address e') inn"
    proof
      assume "e' = e"
      with once_at_push_new [OF out not_listed_out] once_at_push_new [OF inn not_listed_in]
      show ?thesis by simp
    next
      assume e': "e' \<in> set (getAllEdges g)"
      with ke have "getEdge (address e') g = Some e'"
        by (simp add: getEdge_def getAllEdges_def keyed_by_address_get)
      with new have ne: "address e' \<noteq> address e"
        by auto
      from e' inv have "once_at (src e') (address e') (u_outEdges g)"
        and "once_at (dst e') (address e') (u_inEdges g)"
        by (simp_all add: graph_invariant_def)
      with ne once_at_push_other [OF out] once_at_push_other [OF inn] show ?thesis
        by blast
    qed
    then show "once_at (src e') (address e') (u_outEdges g')"
      and "once_at (dst e') (address e') (u_inEdges g')"
      by (simp_all add: g'_def)
  qed
  moreover have "keyed_by_address (u_nodes g')"
    using kn by (simp add: g'_def)
  moreover have "keyed_by_address (u_edges g')"
    using ke by (simp add: g'_def keyed_by_address_add)
  moreover have "distinct (keys (u_outEdges g'))" "distinct (keys (u_inEdges g'))"
    using push_edge_distinct [OF out dout] push_edge_distinct [OF inn din]
    by (simp_all add: g'_def)
  moreover have "lists_stored_edges index' g'"
    if p: "push_edge a (address e) index = Some index'" and l: "lists_stored_edges index g"
    for a index index'
    unfolding lists_stored_edges_def
  proof (intro ballI)
    fix entry' x assume entry': "entry' \<in> set (getAll index')" and x: "x \<in> set (edges entry')"
    from push_edge_getAll [OF p entry'] x
    have "x = address e \<or> (\<exists>entry \<in> set (getAll index). x \<in> set (edges entry))"
      by auto
    with l have "x = address e \<or> getEdge x g \<noteq> None"
      unfolding lists_stored_edges_def by blast
    with old this_edge show "getEdge x g' \<noteq> None"
      by auto
  qed
  from this [OF out lout] this [OF inn lin]
  have "lists_stored_edges (u_outEdges g') g'" "lists_stored_edges (u_inEdges g') g'"
    by (simp_all add: g'_def)
  ultimately have "well_formed g'"
    unfolding well_formed_def by blast
  with out inn show ?thesis
    unfolding g'_def by blast
qed

lemma well_formed_addEdge:
  assumes "well_formed g"
  shows "well_formed (snd (addEdge e g))"
proof (cases "getEdge (address e) g \<noteq> None \<or> getNode (src e) g = None \<or> getNode (dst e) g = None")
  case True
  with assms show ?thesis
    by (simp only: addEdge_unchanged)
next
  case False
  then have new: "getEdge (address e) g = None"
    and s: "getNode (src e) g \<noteq> None" and d: "getNode (dst e) g \<noteq> None"
    by simp_all
  from addEdge_new_well_formed [OF assms new s d] addEdge_new [OF new s d] show ?thesis
    by force
qed

lemma addEdge_succeeds:
  assumes "well_formed g" and "getEdge (address e) g = None"
    and "getNode (src e) g \<noteq> None" and "getNode (dst e) g \<noteq> None"
  shows "fst (addEdge e g) = Inr ()"
  using addEdge_new_well_formed [OF assms] addEdge_new [OF assms(2-4)] by force

lemma forEach_preserves:
  assumes "\<And>x s. P s \<Longrightarrow> P (snd (f x s))" and "P s"
  shows "P (snd (forEach f xs s))"
  using assms(2)
proof (induction xs arbitrary: s)
  case Nil
  then show ?case by simp
next
  case (Cons x xs)
  from assms(1) [OF Cons.prems, of x] have "P (snd (f x s))" .
  with Cons.IH [of "snd (f x s)"] show ?case
    by (cases "f x s") (auto split: sum.splits)
qed

section \<open>C10: self-loops\<close>

lemma count_list_map_new:
  assumes "\<forall>x \<in> set xs. f x \<noteq> y"
  shows "count_list (map f (xs @ [z])) y = (if f z = y then 1 else 0)"
proof -
  from assms have "y \<notin> set (map f xs)" by auto
  then have "count_list (map f xs) y = 0"
    by (simp add: count_list_0_iff)
  then show ?thesis by simp
qed

lemma pushed_list_resolves_once:
  assumes ke: "keyed_by_address (u_edges g)"
    and l: "lists_stored_edges index g"
    and new: "getEdge (address e) g = None"
    and p: "push_edge a (address e) index = Some index'"
    and g': "u_edges g' = add e (u_edges g)"
  shows "\<exists>entry. get a index' = Some entry \<and>
    count_list (map (\<lambda>x. getEdge x g') (edges entry)) (Some e) = 1"
proof -
  from p obtain entry where entry: "get a index = Some entry"
    by (auto simp: push_edge_def split: option.splits)
  with push_edge_get [OF p, of a]
  have now: "get a index' = Some (entry\<lparr>edges := edges entry @ [address e]\<rparr>)"
    by simp
  have "getEdge x g' \<noteq> Some e" if x: "x \<in> set (edges entry)" for x
  proof -
    from l get_SomeD [OF entry] x have stored: "getEdge x g \<noteq> None"
      unfolding lists_stored_edges_def by blast
    with new have "JSON_stringify x \<noteq> JSON_stringify (address e)"
      by (auto simp: getEdge_def get_def)
    then have same: "getEdge x g' = getEdge x g"
      by (simp add: getEdge_def g' get_add)
    show ?thesis
    proof
      assume "getEdge x g' = Some e"
      with same have "e \<in> set (getAll (u_edges g))"
        by (auto simp: getEdge_def dest: get_SomeD)
      with ke have "getEdge (address e) g = Some e"
        by (simp add: getEdge_def keyed_by_address_get)
      with new show False by simp
    qed
  qed
  then have "\<forall>x \<in> set (edges entry). getEdge x g' \<noteq> Some e"
    by blast
  moreover have "getEdge (address e) g' = Some e"
    by (simp add: getEdge_def g' get_add_same)
  ultimately have "count_list (map (\<lambda>x. getEdge x g') (edges entry @ [address e])) (Some e) = 1"
    by (simp only: count_list_map_new) simp
  with now show ?thesis by simp
qed

text \<open>
  C10: in a graph built by the methods (a well-formed graph) that has a node at \<open>a\<close>,
  adding an edge from \<open>a\<close> to \<open>a\<close> at an address where no edge is stored succeeds,
  and afterwards \<open>getOutEdges(a)\<close> and \<open>getInEdges(a)\<close> each contain the edge
  exactly once.
\<close>

theorem self_loop_listed_once:
  assumes "well_formed g" and "getNode a g \<noteq> None" and "getEdge (address e) g = None"
    and "src e = a" and "dst e = a"
  shows "fst (addEdge e g) = Inr () \<and>
    (\<exists>outs ins. getOutEdges a (snd (addEdge e g)) = Inr outs \<and> count_list outs (Some e) = 1 \<and>
       getInEdges a (snd (addEdge e g)) = Inr ins \<and> count_list ins (Some e) = 1)"
proof -
  from assms have s: "getNode (src e) g \<noteq> None" and d: "getNode (dst e) g \<noteq> None"
    by simp_all
  from addEdge_new_well_formed [OF assms(1,3) s d] obtain out inn where
    out: "push_edge (src e) (address e) (u_outEdges g) = Some out"
    and inn: "push_edge (dst e) (address e) (u_inEdges g) = Some inn"
    by blast
  define g' where "g' = g\<lparr>u_edges := add e (u_edges g), u_outEdges := out, u_inEdges := inn\<rparr>"
  from addEdge_new [OF assms(3) s d out inn] have r: "addEdge e g = (Inr (), g')"
    by (simp add: g'_def)
  from assms(1) have ke: "keyed_by_address (u_edges g)"
    and lout: "lists_stored_edges (u_outEdges g) g" and lin: "lists_stored_edges (u_inEdges g) g"
    by (simp_all add: well_formed_def)
  have e': "u_edges g' = add e (u_edges g)"
    by (simp add: g'_def)
  from pushed_list_resolves_once [OF ke lout assms(3) out e'] assms(4)
  have "\<exists>outs. getOutEdges a g' = Inr outs \<and> count_list outs (Some e) = 1"
    by (auto simp: getOutEdges_def g'_def)
  moreover from pushed_list_resolves_once [OF ke lin assms(3) inn e'] assms(5)
  have "\<exists>ins. getInEdges a g' = Inr ins \<and> count_list ins (Some e) = 1"
    by (auto simp: getInEdges_def g'_def)
  ultimately show ?thesis
    using r by auto
qed

lemma well_formed_oneHouse: "well_formed oneHouse"
  unfolding oneHouse_def by (intro well_formed_addNode well_formed_Graph_new)

lemma well_formed_twoHouses: "well_formed twoHouses"
  unfolding twoHouses_def by (intro well_formed_addNode well_formed_oneHouse)

lemma well_formed_suburbia: "well_formed suburbia"
  unfolding suburbia_def by (intro well_formed_addEdge well_formed_twoHouses)

theorem self_loop_listed_once_witness:
  "well_formed suburbia \<and> getNode (makeAddress ''mansion'') suburbia \<noteq> None \<and>
   getEdge (address selfLoop) suburbia = None \<and>
   src selfLoop = makeAddress ''mansion'' \<and> dst selfLoop = makeAddress ''mansion'' \<and>
   fst (addEdge selfLoop suburbia) = Inr () \<and>
   (\<exists>outs ins. getOutEdges (makeAddress ''mansion'') (snd (addEdge selfLoop suburbia)) = Inr outs \<and>
      count_list outs (Some selfLoop) = 1 \<and>
      getInEdges (makeAddress ''mansion'') (snd (addEdge selfLoop suburbia)) = Inr ins \<and>
      count_list ins (Some selfLoop) = 1)"
proof -
  have a: "getNode (makeAddress ''mansion'') suburbia \<noteq> None"
    by (simp add: suburbia_eval getNode_def get_def)
  have b: "getEdge (address selfLoop) suburbia = None"
    by (simp add: suburbia_eval getEdge_def get_def selfLoop_def JSON_stringify_inject
        makeAddress_inject)
  have c: "src selfLoop = makeAddress ''mansion''" and d: "dst selfLoop = makeAddress ''mansion''"
    by (simp_all add: selfLoop_def)
  from self_loop_listed_once [OF well_formed_suburbia a b c d] well_formed_suburbia a b c d
  show ?thesis by blast
qed

section \<open>The store during a merge\<close>

lemma call_result:
  assumes "length h' = Suc (length h)" and "take (length h) h' = h"
    and "well_formed (h' ! length h)"
    and "\<And>g. well_formed g \<Longrightarrow> well_formed (snd (operation g))"
  shows "length (snd (call (length h) operation h')) = Suc (length h) \<and>
    take (length h) (snd (call (length h) operation h')) = h \<and>
    well_formed (snd (call (length h) operation h') ! length h)"
proof -
  obtain outcome this where m: "operation (h' ! length h) = (outcome, this)"
    by (cases "operation (h' ! length h)")
  with assms(4) [OF assms(3)] have "well_formed this" by simp
  with assms(1,2) m show ?thesis
    by (simp add: call_def)
qed

lemma merging_call:
  assumes "merging h h'" and "\<And>g. well_formed g \<Longrightarrow> well_formed (snd (operation g))"
  shows "merging h (snd (call (length h) operation h'))"
  using call_result [of h' h operation] assms unfolding merging_def by blast

lemma merging_new_Graph: "new_Graph h = (length h, snd (new_Graph h)) \<and> merging h (snd (new_Graph h))"
  by (simp add: new_Graph_def merging_def well_formed_Graph_new)

lemma merging_node1:
  "merging h h' \<Longrightarrow> merging h (snd (merge_node1 g2 (length h) nodeResolver node h'))"
  by (auto simp: merge_node1_def merging_call well_formed_addNode split: option.splits sum.splits)

lemma merging_node2:
  "merging h h' \<Longrightarrow> merging h (snd (merge_node2 (length h) node h'))"
  by (auto simp: merge_node2_def merging_call well_formed_addNode)

lemma merging_edge1:
  "merging h h' \<Longrightarrow> merging h (snd (merge_edge1 g2 (length h) edgeResolver edge h'))"
  by (auto simp: merge_edge1_def merging_call well_formed_addEdge split: option.splits sum.splits)

lemma merging_edge2:
  "merging h h' \<Longrightarrow> merging h (snd (merge_edge2 (length h) edge h'))"
  by (auto simp: merge_edge2_def merging_call well_formed_addEdge)

lemma merging_merge:
  "merging h (snd (merge g1 g2 nodeResolver edgeResolver h))"
proof -
  let ?r = "length h"
  define h0 where "h0 = snd (new_Graph h)"
  define l1 where "l1 = forEach (merge_node1 g2 ?r nodeResolver) (getAllNodes (h0 ! g1)) h0"
  define l2 where "l2 = forEach (merge_node2 ?r) (getAllNodes (snd l1 ! g2)) (snd l1)"
  define l3 where "l3 = forEach (merge_edge1 g2 ?r edgeResolver) (getAllEdges (snd l2 ! g1)) (snd l2)"
  define l4 where "l4 = forEach (merge_edge2 ?r) (getAllEdges (snd l3 ! g2)) (snd l3)"
  have n: "new_Graph h = (?r, h0)" and m0: "merging h h0"
    using merging_new_Graph [of h] by (simp_all add: h0_def)
  have m1: "merging h (snd l1)"
    unfolding l1_def by (rule forEach_preserves [where P = "merging h" and f = "merge_node1 g2 (length h) nodeResolver"])
      (erule merging_node1, rule m0)
  have m2: "merging h (snd l2)"
    unfolding l2_def by (rule forEach_preserves [where P = "merging h" and f = "merge_node2 (length h)"])
      (erule merging_node2, rule m1)
  have m3: "merging h (snd l3)"
    unfolding l3_def by (rule forEach_preserves [where P = "merging h" and f = "merge_edge1 g2 (length h) edgeResolver"])
      (erule merging_edge1, rule m2)
  have m4: "merging h (snd l4)"
    unfolding l4_def by (rule forEach_preserves [where P = "merging h" and f = "merge_edge2 (length h)"])
      (erule merging_edge2, rule m3)
  have "snd (merge g1 g2 nodeResolver edgeResolver h) \<in> {snd l1, snd l2, snd l3, snd l4}"
    unfolding merge_def n
    by (cases l1; cases l2; cases l3; cases l4)
      (auto simp: l1_def l2_def l3_def l4_def split: sum.splits)
  with m1 m2 m3 m4 show ?thesis by auto
qed

lemma merge_returns_new:
  "fst (merge g1 g2 nodeResolver edgeResolver h) = Inr r \<Longrightarrow> r = length h"
  by (auto simp: merge_def new_Graph_def split: prod.splits sum.splits)

section \<open>C8: merge does not change its inputs\<close>

text \<open>
  C8: \<open>merge\<close> leaves every graph that existed before the call as it was, the two
  inputs among them, whether it returns or throws; what it returns is a reference
  to a new graph. The resolvers are functions of their two arguments.
\<close>

theorem merge_leaves_inputs:
  assumes "g1 < length h" and "g2 < length h"
  shows "snd (merge g1 g2 nodeResolver edgeResolver h) ! g1 = h ! g1 \<and>
    snd (merge g1 g2 nodeResolver edgeResolver h) ! g2 = h ! g2 \<and>
    take (length h) (snd (merge g1 g2 nodeResolver edgeResolver h)) = h \<and>
    (\<forall>r. fst (merge g1 g2 nodeResolver edgeResolver h) = Inr r \<longrightarrow>
       r = length h \<and> r \<noteq> g1 \<and> r \<noteq> g2)"
proof -
  let ?h' = "snd (merge g1 g2 nodeResolver edgeResolver h)"
  from merging_merge [of h g1 g2 nodeResolver edgeResolver]
  have t: "take (length h) ?h' = h"
    by (simp add: merging_def)
  have "?h' ! r = h ! r" if "r < length h" for r
    using nth_take [OF that, of ?h'] t by simp
  with assms t merge_returns_new [of g1 g2 nodeResolver edgeResolver h] show ?thesis
    by auto
qed

lemma keep_first_merge:
  "merge 0 1 (\<lambda>a b. Inr a) (\<lambda>a b. Inr a) [oneHouse, suburbia] =
     (Inr 2, [oneHouse, suburbia, suburbia])"
  by (simp add: merge_def new_Graph_def Graph_new_def AddressMap_new_def
      merge_node1_def merge_node2_def merge_edge1_def merge_edge2_def call_def
      oneHouse_eval suburbia_eval getAllNodes_def getAllEdges_def getAll_def
      getNode_def getEdge_def get_def add_def addNode_def addEdge_def push_edge_def
      mansion_def mattressStore_def delivery_def deepEqual_node_def deepEqual_address_def
      JSON_stringify_inject makeAddress_inject)

theorem merge_leaves_inputs_witness:
  "(0::nat) < length [oneHouse, suburbia] \<and> (1::nat) < length [oneHouse, suburbia] \<and>
   snd (merge 0 1 (\<lambda>a b. Inr a) (\<lambda>a b. Inr a) [oneHouse, suburbia]) ! 0 = oneHouse \<and>
   snd (merge 0 1 (\<lambda>a b. Inr a) (\<lambda>a b. Inr a) [oneHouse, suburbia]) ! 1 = suburbia \<and>
   fst (merge 0 1 (\<lambda>a b. Inr a) (\<lambda>a b. Inr a) [oneHouse, suburbia]) = Inr 2"
proof -
  have a: "(0::nat) < length [oneHouse, suburbia]" and b: "(1::nat) < length [oneHouse, suburbia]"
    by simp_all
  from merge_leaves_inputs [OF a b, of "\<lambda>a b. Inr a" "\<lambda>a b. Inr a"] keep_first_merge
  show ?thesis by simp
qed

section \<open>C4: the invariants hold after every successful operation\<close>

lemma well_formed_forEach_addNode:
  "well_formed g \<Longrightarrow> well_formed (snd (forEach addNode ns g))"
  by (rule forEach_preserves [where P = well_formed and f = addNode])
    (rule well_formed_addNode)

lemma well_formed_forEach_addEdge:
  "well_formed g \<Longrightarrow> well_formed (snd (forEach addEdge es g))"
  by (rule forEach_preserves [where P = well_formed and f = addEdge])
    (rule well_formed_addEdge)

lemma well_formed_Graph_fromJSON:
  assumes "Graph_fromJSON json = Inr g"
  shows "well_formed g"
proof -
  from assms obtain nodeMap u1 result1 edgeMap u2 where
    n: "forEach addNode (getAll nodeMap) Graph_new = (Inr u1, result1)"
    and e: "forEach addEdge (getAll edgeMap) result1 = (Inr u2, g)"
    by (auto simp: Graph_fromJSON_def split: sum.splits prod.splits)
  have "well_formed (snd (Inr u1 :: error + unit, result1))"
    unfolding n [symmetric] by (rule well_formed_forEach_addNode [OF well_formed_Graph_new])
  then have "well_formed result1" by simp
  then have "well_formed (snd (forEach addEdge (getAll edgeMap) result1))"
    by (rule well_formed_forEach_addEdge)
  then show ?thesis by (simp add: e)
qed

lemma well_formed_merge:
  assumes "merge g1 g2 nodeResolver edgeResolver h = (Inr r, h')"
  shows "well_formed (h' ! r)"
proof -
  from assms merge_returns_new [of g1 g2 nodeResolver edgeResolver h r] have "r = length h"
    by simp
  with merging_merge [of h g1 g2 nodeResolver edgeResolver] assms show ?thesis
    by (simp add: merging_def)
qed

text \<open>
  C4: the empty graph satisfies the two invariants, and so does the graph that a
  successful \<open>addNode\<close> or \<open>addEdge\<close> leaves when called on a graph built by the
  methods (a well-formed graph), the graph that \<open>fromJSON\<close> returns, and the graph
  that \<open>merge\<close> or \<open>mergeConservative\<close> returns; each of them is well formed again.
\<close>

theorem graph_invariant_after_operations:
  "graph_invariant Graph_new \<and> well_formed Graph_new \<and>
   (well_formed g \<and> addNode n g = (Inr u, g') \<longrightarrow> graph_invariant g' \<and> well_formed g') \<and>
   (well_formed g \<and> addEdge e g = (Inr u, g') \<longrightarrow> graph_invariant g' \<and> well_formed g') \<and>
   (Graph_fromJSON json = Inr g' \<longrightarrow> graph_invariant g' \<and> well_formed g') \<and>
   (merge g1 g2 nodeResolver edgeResolver h = (Inr r, h') \<longrightarrow>
      graph_invariant (h' ! r) \<and> well_formed (h' ! r)) \<and>
   (mergeConservative g1 g2 h = (Inr r, h') \<longrightarrow>
      graph_invariant (h' ! r) \<and> well_formed (h' ! r))"
proof (intro conjI impI)
  show "well_formed Graph_new" "graph_invariant Graph_new"
    using well_formed_Graph_new well_formed_invariant by blast+
next
  assume "well_formed g \<and> addNode n g = (Inr u, g')"
  with well_formed_addNode [of g n] show "well_formed g'" by simp
  then show "graph_invariant g'" by (rule well_formed_invariant)
next
  assume "well_formed g \<and> addEdge e g = (Inr u, g')"
  with well_formed_addEdge [of g e] show "well_formed g'" by simp
  then show "graph_invariant g'" by (rule well_formed_invariant)
next
  assume "Graph_fromJSON json = Inr g'"
  then show "well_formed g'" by (rule well_formed_Graph_fromJSON)
  then show "graph_invariant g'" by (rule well_formed_invariant)
next
  assume "merge g1 g2 nodeResolver edgeResolver h = (Inr r, h')"
  then show "well_formed (h' ! r)" by (rule well_formed_merge)
  then show "graph_invariant (h' ! r)" by (rule well_formed_invariant)
next
  assume "mergeConservative g1 g2 h = (Inr r, h')"
  then show "well_formed (h' ! r)"
    unfolding mergeConservative_def by (rule well_formed_merge)
  then show "graph_invariant (h' ! r)" by (rule well_formed_invariant)
qed

lemma addNode_twoHouses: "addNode mattressStore oneHouse = (Inr (), twoHouses)"
  by (simp add: twoHouses_eval oneHouse_eval addNode_def getNode_def get_def
      add_def mattressStore_def JSON_stringify_inject makeAddress_inject)

lemma addEdge_suburbia: "addEdge delivery twoHouses = (Inr (), suburbia)"
  by (simp add: suburbia_eval twoHouses_eval addEdge_def getEdge_def getNode_def get_def
      add_def push_edge_def delivery_def JSON_stringify_inject makeAddress_inject)

lemma JSON_parse_makeAddress: "JSON_parse (JSON_stringify (makeAddress i)) = Some (makeAddress i)"
  by (rule JSON_parse_JSON_stringify) (simp add: makeAddress_def)

lemma Graph_fromJSON_suburbia: "Graph_fromJSON (Graph_toJSON suburbia) = Inr suburbia"
  by (simp add: Graph_fromJSON_def Graph_toJSON_def fromJSON_def toJSON_def
      JSON_parse_makeAddress JSON_stringify_inject makeAddress_inject
      Graph_new_def AddressMap_new_def suburbia_eval getAll_def
      getNode_def getEdge_def get_def add_def addNode_def addEdge_def push_edge_def
      mansion_def mattressStore_def delivery_def)

lemma mergeConservative_houses:
  "mergeConservative 0 1 [oneHouse, suburbia] = (Inr 2, [oneHouse, suburbia, suburbia])"
  by (simp add: mergeConservative_def conservativeResolver_def merge_def new_Graph_def
      Graph_new_def AddressMap_new_def
      merge_node1_def merge_node2_def merge_edge1_def merge_edge2_def call_def
      oneHouse_eval suburbia_eval getAllNodes_def getAllEdges_def getAll_def
      getNode_def getEdge_def get_def add_def addNode_def addEdge_def push_edge_def
      mansion_def mattressStore_def delivery_def deepEqual_node_def deepEqual_address_def
      JSON_stringify_inject makeAddress_inject)

theorem graph_invariant_after_operations_witness:
  "well_formed oneHouse \<and> addNode mattressStore oneHouse = (Inr (), twoHouses) \<and>
   graph_invariant twoHouses \<and>
   well_formed twoHouses \<and> addEdge delivery twoHouses = (Inr (), suburbia) \<and>
   graph_invariant suburbia \<and>
   Graph_fromJSON (Graph_toJSON suburbia) = Inr suburbia \<and>
   merge 0 1 (\<lambda>a b. Inr a) (\<lambda>a b. Inr a) [oneHouse, suburbia] =
     (Inr 2, [oneHouse, suburbia, suburbia]) \<and>
   mergeConservative 0 1 [oneHouse, suburbia] = (Inr 2, [oneHouse, suburbia, suburbia]) \<and>
   graph_invariant ([oneHouse, suburbia, suburbia] ! 2)"
proof -
  note a = well_formed_oneHouse addNode_twoHouses
  note b = well_formed_twoHouses addEdge_suburbia
  from graph_invariant_after_operations
    [of oneHouse mattressStore "()" twoHouses delivery "Graph_toJSON suburbia"
      0 1 "\<lambda>a b. Inr a" "\<lambda>a b. Inr a" "[oneHouse, suburbia]" 2 "[oneHouse, suburbia, suburbia]"]
    a keep_first_merge
  have 1: "graph_invariant twoHouses" and 2: "graph_invariant ([oneHouse, suburbia, suburbia] ! 2)"
    by blast+
  from graph_invariant_after_operations
    [of twoHouses mattressStore "()" suburbia delivery "Graph_toJSON suburbia"
      0 1 "\<lambda>a b. Inr a" "\<lambda>a b. Inr a" "[oneHouse, suburbia]" 2 "[oneHouse, suburbia, suburbia]"]
    b Graph_fromJSON_suburbia mergeConservative_houses
  have 3: "graph_invariant suburbia"
    by blast
  from a b 1 2 3 Graph_fromJSON_suburbia keep_first_merge mergeConservative_houses
  show ?thesis by blast
qed

section \<open>C9: a resolver that returns another address\<close>

text \<open>
  C9, as stated: when a resolver returns a value whose address is not the address
  of its two arguments, inserting the value fails. The code does not compare the
  addresses: both graphs hold the mansion, the node resolver returns the warehouse,
  and \<open>merge\<close> returns a graph that holds the warehouse and the mansion.
\<close>

theorem resolver_other_address_counterexample:
  "getNode (address mansion) oneHouse = Some mansion \<and>
   address warehouse \<noteq> address mansion \<and>
   fst (merge 0 1 (\<lambda>a b. Inr warehouse) (\<lambda>a b. Inr a) [oneHouse, oneHouse]) = Inr 2 \<and>
   getAllNodes (snd (merge 0 1 (\<lambda>a b. Inr warehouse) (\<lambda>a b. Inr a) [oneHouse, oneHouse]) ! 2)
     = [warehouse, mansion]"
  by (simp add: merge_def new_Graph_def Graph_new_def AddressMap_new_def
      merge_node1_def merge_node2_def merge_edge1_def merge_edge2_def call_def
      oneHouse_eval getAllNodes_def getAllEdges_def getAll_def
      getNode_def getEdge_def get_def add_def addNode_def
      mansion_def warehouse_def JSON_stringify_inject makeAddress_inject)

lemma addNode_succeeds_iff:
  "fst (addNode n g) = Inr () \<longleftrightarrow>
     (case getNode (address n) g of None \<Rightarrow> True | Some existing \<Rightarrow> deepEqual_node existing n)"
  by (simp add: addNode_def split: option.splits)

lemma addEdge_fails_unless:
  assumes "fst (addEdge e g) = Inr ()"
  shows "case getEdge (address e) g of
       None \<Rightarrow> getNode (src e) g \<noteq> None \<and> getNode (dst e) g \<noteq> None
     | Some existing \<Rightarrow> deepEqual_edge existing e"
  using assms by (auto simp: addEdge_def split: option.splits if_splits)

lemma addEdge_succeeds_iff:
  assumes "well_formed g"
  shows "fst (addEdge e g) = Inr () \<longleftrightarrow>
     (case getEdge (address e) g of
        None \<Rightarrow> getNode (src e) g \<noteq> None \<and> getNode (dst e) g \<noteq> None
      | Some existing \<Rightarrow> deepEqual_edge existing e)"
proof
  assume "fst (addEdge e g) = Inr ()"
  then show "case getEdge (address e) g of
        None \<Rightarrow> getNode (src e) g \<noteq> None \<and> getNode (dst e) g \<noteq> None
      | Some existing \<Rightarrow> deepEqual_edge existing e"
    by (rule addEdge_fails_unless)
next
  assume r: "case getEdge (address e) g of
        None \<Rightarrow> getNode (src e) g \<noteq> None \<and> getNode (dst e) g \<noteq> None
      | Some existing \<Rightarrow> deepEqual_edge existing e"
  show "fst (addEdge e g) = Inr ()"
  proof (cases "getEdge (address e) g")
    case None
    with r addEdge_succeeds [OF assms None] show ?thesis by simp
  next
    case (Some existing)
    with r show ?thesis by (simp add: addEdge_def)
  qed
qed

lemma fst_call: "fst (call r operation h) = fst (operation (h ! r))"
  by (simp add: call_def split: prod.splits)

text \<open>
  C9, amended: \<open>merge\<close> inserts what a resolver returns with \<open>addNode\<close> or
  \<open>addEdge\<close>, under the address of the value returned, and does not compare that
  address with the address of the resolver's arguments. The insertion of a node
  succeeds exactly when the result graph holds no node at the address of the value
  returned, or one that is deep-equal to it; the insertion of an edge succeeds exactly
  when the result graph holds a deep-equal edge at that address, or no edge there and
  a node at both endpoints of the value returned.
\<close>

theorem resolver_output_inserted_unchecked:
  "(getNode (address node) (h ! g2) = Some node2 \<and> nodeResolver node node2 = Inr resolved \<longrightarrow>
      merge_node1 g2 result nodeResolver node h = call result (addNode resolved) h \<and>
      (fst (merge_node1 g2 result nodeResolver node h) = Inr () \<longleftrightarrow>
         (case getNode (address resolved) (h ! result) of
            None \<Rightarrow> True
          | Some existing \<Rightarrow> deepEqual_node existing resolved))) \<and>
   (getEdge (address edge) (h ! g2) = Some edge2 \<and> edgeResolver edge edge2 = Inr resolved' \<and>
    well_formed (h ! result) \<longrightarrow>
      merge_edge1 g2 result edgeResolver edge h = call result (addEdge resolved') h \<and>
      (fst (merge_edge1 g2 result edgeResolver edge h) = Inr () \<longleftrightarrow>
         (case getEdge (address resolved') (h ! result) of
            None \<Rightarrow> getNode (src resolved') (h ! result) \<noteq> None \<and>
              getNode (dst resolved') (h ! result) \<noteq> None
          | Some existing \<Rightarrow> deepEqual_edge existing resolved')))"
  by (simp add: merge_node1_def merge_edge1_def fst_call addNode_succeeds_iff
      addEdge_succeeds_iff)

theorem resolver_output_inserted_unchecked_witness:
  "getNode (address mansion) ([suburbia, suburbia, twoHouses] ! 1) = Some mansion \<and>
   (\<lambda>a b. Inr warehouse) mansion mansion = (Inr warehouse :: error + nat node) \<and>
   fst (merge_node1 1 2 (\<lambda>a b. Inr warehouse) mansion [suburbia, suburbia, twoHouses]) = Inr () \<and>
   getEdge (address delivery) ([suburbia, suburbia, twoHouses] ! 1) = Some delivery \<and>
   (\<lambda>a b. Inr selfLoop) delivery delivery = (Inr selfLoop :: error + nat edge) \<and>
   well_formed ([suburbia, suburbia, twoHouses] ! 2) \<and>
   fst (merge_edge1 1 2 (\<lambda>a b. Inr selfLoop) delivery [suburbia, suburbia, twoHouses]) = Inr ()"
proof -
  define h where "h = [suburbia, suburbia, twoHouses]"
  have a: "getNode (address mansion) (h ! 1) = Some mansion"
    by (simp add: h_def suburbia_eval getNode_def get_def mansion_def)
  have b: "getEdge (address delivery) (h ! 1) = Some delivery"
    by (simp add: h_def suburbia_eval getEdge_def get_def delivery_def)
  have c: "well_formed (h ! 2)"
    by (simp add: h_def well_formed_twoHouses)
  have d: "getNode (address warehouse) (h ! 2) = None"
    by (simp add: h_def twoHouses_eval getNode_def get_def warehouse_def JSON_stringify_inject
        makeAddress_inject)
  have e: "getEdge (address selfLoop) (h ! 2) = None"
    by (simp add: h_def twoHouses_eval getEdge_def get_def)
  have f: "getNode (src selfLoop) (h ! 2) = Some mansion"
    "getNode (dst selfLoop) (h ! 2) = Some mansion"
    by (simp_all add: h_def twoHouses_eval getNode_def get_def selfLoop_def)
  note t = resolver_output_inserted_unchecked
    [of mansion h 1 mansion "\<lambda>a b. Inr warehouse" warehouse 2
      delivery delivery "\<lambda>a b. Inr selfLoop" selfLoop]
  from t a have "fst (merge_node1 1 2 (\<lambda>a b. Inr warehouse) mansion h) = Inr () \<longleftrightarrow>
      (case getNode (address warehouse) (h ! 2) of
         None \<Rightarrow> True | Some existing \<Rightarrow> deepEqual_node existing warehouse)"
    by blast
  then have n: "fst (merge_node1 1 2 (\<lambda>a b. Inr warehouse) mansion h) = Inr ()"
    by (simp add: d)
  from t b c have "fst (merge_edge1 1 2 (\<lambda>a b. Inr selfLoop) delivery h) = Inr () \<longleftrightarrow>
      (case getEdge (address selfLoop) (h ! 2) of
         None \<Rightarrow> getNode (src selfLoop) (h ! 2) \<noteq> None \<and> getNode (dst selfLoop) (h ! 2) \<noteq> None
       | Some existing \<Rightarrow> deepEqual_edge existing selfLoop)"
    by blast
  then have m: "fst (merge_edge1 1 2 (\<lambda>a b. Inr selfLoop) delivery h) = Inr ()"
    by (simp add: e f)
  from a b c n m show ?thesis
    unfolding h_def by blast
qed

section \<open>C6: the JSON round trip of an AddressMap\<close>

lemma rehydrates_update:
  assumes "rehydrates m" and "JSON_parse k = Some a" and "deepEqual_address a (address u)"
  shows "rehydrates (AList.update k u m)"
proof -
  have "case JSON_parse k' of None \<Rightarrow> False | Some a \<Rightarrow> deepEqual_address a (address u')"
    if "(k', u') \<in> set (AList.update k u m)" for k' u'
  proof -
    from that have "(k', u') = (k, u) \<or> (k', u') \<in> set m"
      using set_update_subset [of k u m] by blast
    with assms show ?thesis
      unfolding rehydrates_def by auto
  qed
  moreover from assms(1) have "distinct (keys (AList.update k u m))"
    by (simp add: rehydrates_def keys_def distinct_update)
  ultimately show ?thesis
    unfolding rehydrates_def by blast
qed

lemma rehydrates_fromJSON_loop:
  "rehydrates acc \<Longrightarrow> fromJSON_loop json acc = Inr m \<Longrightarrow> rehydrates m"
proof (induction json arbitrary: acc)
  case Nil
  then show ?case by simp
next
  case (Cons kr json)
  obtain k r where kr: "kr = (k, r)" by (cases kr)
  with Cons.prems(2) obtain a where a: "JSON_parse k = Some a"
    and l: "fromJSON_loop json (AList.update k \<lparr>address = a, \<dots> = r\<rparr> acc) = Inr m"
    by (auto split: option.splits)
  have "rehydrates (AList.update k \<lparr>address = a, \<dots> = r\<rparr> acc)"
    using Cons.prems(1) a by (rule rehydrates_update) (simp add: deepEqual_address_def)
  from Cons.IH [OF this l] show ?case .
qed

lemma built_rehydrates: "built m \<Longrightarrow> rehydrates m"
proof (induction rule: built.induct)
  case built_new
  show ?case
    by (simp add: rehydrates_def AddressMap_new_def keys_def)
next
  case (built_add m u)
  from built_add.IH have "rehydrates (AList.update (JSON_stringify (address u)) u m)"
    by (rule rehydrates_update)
      (simp_all add: JSON_parse_JSON_stringify built_add.hyps deepEqual_address_def)
  then show ?case
    by (simp add: add_def)
next
  case (built_fromJSON json m)
  have "rehydrates ([] :: 'a addressable_scheme AddressMap)"
    by (simp add: rehydrates_def keys_def)
  with built_fromJSON show ?case
    unfolding fromJSON_def AddressMap_new_def by (rule rehydrates_fromJSON_loop [rotated])
qed

lemma toJSON_fold:
  "distinct (map fst acc @ map fst m) \<Longrightarrow>
   fold (\<lambda>(key, u) result. AList.update key (addressable.more u) result) m acc =
     acc @ map (\<lambda>(key, u). (key, addressable.more u)) m"
proof (induction m arbitrary: acc)
  case Nil
  then show ?case by simp
next
  case (Cons ku m)
  obtain k u where ku: "ku = (k, u)" by (cases ku)
  from Cons.prems ku have "k \<notin> set (map fst acc)" by auto
  then have "AList.update k (addressable.more u) acc = acc @ [(k, addressable.more u)]"
    by (rule update_fresh)
  with Cons.IH [of "acc @ [(k, addressable.more u)]"] Cons.prems ku show ?case by simp
qed

lemma toJSON_strips:
  "distinct (keys m) \<Longrightarrow> toJSON m = map (\<lambda>(key, u). (key, addressable.more u)) m"
  using toJSON_fold [of "[]" m] by (simp add: toJSON_def keys_def)

lemma fromJSON_loop_attaches:
  assumes "distinct (map fst acc @ map fst m)"
    and "\<forall>(k, u) \<in> set m. JSON_parse k \<noteq> None"
  shows "fromJSON_loop (map (\<lambda>(key, u). (key, addressable.more u)) m) acc =
    Inr (acc @ map (\<lambda>(key, u). (key, \<lparr>address = the (JSON_parse key), \<dots> = addressable.more u\<rparr>)) m)"
  using assms
proof (induction m arbitrary: acc)
  case Nil
  then show ?case by simp
next
  case (Cons ku m)
  obtain k u where ku: "ku = (k, u)" by (cases ku)
  from Cons.prems(2) ku obtain a where a: "JSON_parse k = Some a" by auto
  let ?v = "\<lparr>address = a, \<dots> = addressable.more u\<rparr>"
  from Cons.prems(1) ku have "k \<notin> set (map fst acc)" by auto
  then have up: "AList.update k ?v acc = acc @ [(k, ?v)]"
    by (rule update_fresh)
  from Cons.prems ku have "distinct (map fst (acc @ [(k, ?v)]) @ map fst m)"
    and "\<forall>(k, u) \<in> set m. JSON_parse k \<noteq> None"
    by auto
  from Cons.IH [OF this] ku a up show ?case by simp
qed

text \<open>
  C6: for every map that the class can make, \<open>fromJSON(m.toJSON())\<close> returns a map
  that \<open>equals\<close> finds equal to \<open>m\<close>, whatever the deep equality \<open>eq_rest\<close> of the
  fields other than the address, as long as it finds a value equal to itself. This
  holds of the empty map as well.
\<close>

theorem fromJSON_toJSON_equals:
  assumes "built m" and "\<And>r. eq_rest r r"
  shows "\<exists>m'. fromJSON (toJSON m) = Inr m' \<and> equals (deepEqual_addressable eq_rest) m' m"
proof -
  from built_rehydrates [OF assms(1)] have d: "distinct (keys m)"
    and p: "\<forall>(k, u) \<in> set m.
      case JSON_parse k of None \<Rightarrow> False | Some a \<Rightarrow> deepEqual_address a (address u)"
    by (simp_all add: rehydrates_def)
  define m' where
    "m' = map (\<lambda>(key, u). (key, \<lparr>address = the (JSON_parse key), \<dots> = addressable.more u\<rparr>)) m"
  from p have parses: "\<forall>(k, u) \<in> set m. JSON_parse k \<noteq> None"
    by (auto split: option.splits)
  from d have "distinct (map fst ([] :: (string \<times> 'a addressable_scheme) list) @ map fst m)"
    by (simp add: keys_def)
  from fromJSON_loop_attaches [OF this parses] have r: "fromJSON (toJSON m) = Inr m'"
    by (simp add: fromJSON_def AddressMap_new_def toJSON_strips [OF d] m'_def)
  have "case map_of m k of None \<Rightarrow> False | Some v \<Rightarrow> deepEqual_addressable eq_rest u' v"
    if "(k, u') \<in> set m'" for k u'
  proof -
    from that obtain u where u: "(k, u) \<in> set m"
      and u': "u' = \<lparr>address = the (JSON_parse k), \<dots> = addressable.more u\<rparr>"
      by (auto simp: m'_def)
    from d u have "map_of m k = Some u"
      by (simp add: keys_def)
    moreover from p u have "deepEqual_address (the (JSON_parse k)) (address u)"
      by (auto split: option.splits)
    ultimately show ?thesis
      using assms(2) by (simp add: deepEqual_addressable_def u')
  qed
  then have "list_all (\<lambda>(key, u). case map_of m key of None \<Rightarrow> False
      | Some v \<Rightarrow> deepEqual_addressable eq_rest u v) m'"
    unfolding list_all_iff by blast
  moreover have "length m' = length m"
    by (simp add: m'_def)
  ultimately have "equals (deepEqual_addressable eq_rest) m' m"
    by (simp add: equals_def)
  with r show ?thesis by blast
qed

theorem fromJSON_toJSON_equals_witness:
  "built (add mattressStore (add mansion AddressMap_new)) \<and>
   (\<forall>r :: (nat, unit) node_ext. r = r) \<and>
   (\<exists>m'. fromJSON (toJSON (add mattressStore (add mansion AddressMap_new))) = Inr m' \<and>
      equals (deepEqual_addressable (=)) m' (add mattressStore (add mansion AddressMap_new)))"
proof -
  have a: "distinct (map fst (address mansion))" "distinct (map fst (address mattressStore))"
    by (simp_all add: mansion_def mattressStore_def makeAddress_def)
  have b: "built (add mattressStore (add mansion AddressMap_new))"
    by (intro built_add built_new a)
  have c: "r = r" for r :: "(nat, unit) node_ext"
    by simp
  from fromJSON_toJSON_equals [OF b, of "(=)"] b c show ?thesis
    by blast
qed

section \<open>C7: conservative merge\<close>

lemma merging_nth: "merging h h' \<Longrightarrow> r < length h \<Longrightarrow> h' ! r = h ! r"
  using nth_take [of r "length h" h'] by (simp add: merging_def)

lemma call_addNode_fresh:
  assumes m: "merging h h'" and fresh: "getNode (address x) (h' ! length h) = None"
  shows "\<exists>h''. call (length h) (addNode x) h' = (Inr (), h'') \<and> merging h h'' \<and>
    u_nodes (h'' ! length h) = u_nodes (h' ! length h) @ [(JSON_stringify (address x), x)] \<and>
    u_edges (h'' ! length h) = u_edges (h' ! length h)"
proof -
  let ?R = "h' ! length h"
  define R' where "R' = snd (addNode x ?R)"
  from fresh have k: "JSON_stringify (address x) \<notin> set (map fst (u_nodes ?R))"
    by (simp add: getNode_def get_None_iff [unfolded keys_def])
  from addNode_new [OF fresh] have a: "addNode x ?R = (Inr (), R')"
    and n: "u_nodes R' = add x (u_nodes ?R)" and e: "u_edges R' = u_edges ?R"
    by (simp_all add: R'_def)
  from n k have n': "u_nodes R' = u_nodes ?R @ [(JSON_stringify (address x), x)]"
    by (simp add: add_def update_fresh)
  from a have c: "call (length h) (addNode x) h' = (Inr (), h'[length h := R'])"
    by (simp add: call_def)
  from merging_call [OF m, of "addNode x"] c have "merging h (h'[length h := R'])"
    by (simp add: well_formed_addNode)
  moreover from m have "h'[length h := R'] ! length h = R'"
    by (simp add: merging_def)
  ultimately show ?thesis
    using c n' e by auto
qed

lemma call_addEdge_fresh:
  assumes m: "merging h h'" and fresh: "getEdge (address e) (h' ! length h) = None"
    and s: "getNode (src e) (h' ! length h) \<noteq> None"
    and d: "getNode (dst e) (h' ! length h) \<noteq> None"
  shows "\<exists>h''. call (length h) (addEdge e) h' = (Inr (), h'') \<and> merging h h'' \<and>
    u_edges (h'' ! length h) = u_edges (h' ! length h) @ [(JSON_stringify (address e), e)] \<and>
    u_nodes (h'' ! length h) = u_nodes (h' ! length h)"
proof -
  let ?R = "h' ! length h"
  define R' where "R' = snd (addEdge e ?R)"
  from m have wf: "well_formed ?R"
    by (simp add: merging_def)
  from fresh have k: "JSON_stringify (address e) \<notin> set (map fst (u_edges ?R))"
    by (simp add: getEdge_def get_None_iff [unfolded keys_def])
  from addEdge_new_well_formed [OF wf fresh s d] obtain out inn where
    "push_edge (src e) (address e) (u_outEdges ?R) = Some out"
    "push_edge (dst e) (address e) (u_inEdges ?R) = Some inn"
    by blast
  from addEdge_new [OF fresh s d this] have a: "addEdge e ?R = (Inr (), R')"
    and n: "u_edges R' = add e (u_edges ?R)" and e: "u_nodes R' = u_nodes ?R"
    by (simp_all add: R'_def)
  from n k have n': "u_edges R' = u_edges ?R @ [(JSON_stringify (address e), e)]"
    by (simp add: add_def update_fresh)
  from a have c: "call (length h) (addEdge e) h' = (Inr (), h'[length h := R'])"
    by (simp add: call_def)
  from merging_call [OF m, of "addEdge e"] c have "merging h (h'[length h := R'])"
    by (simp add: well_formed_addEdge)
  moreover from m have "h'[length h := R'] ! length h = R'"
    by (simp add: merging_def)
  ultimately show ?thesis
    using c n' e by auto
qed

lemma node1_agree:
  assumes "merging h h'" and "g2 < length h"
    and "case getNode (address x) (h ! g2) of None \<Rightarrow> True | Some n2 \<Rightarrow> deepEqual_node x n2"
  shows "merge_node1 g2 (length h) (conservativeResolver deepEqual_node ''nodes'') x h' =
    call (length h) (addNode x) h'"
  using assms(3) merging_nth [OF assms(1,2)]
  by (simp add: merge_node1_def conservativeResolver_def split: option.splits)

lemma node1_conflict:
  assumes "merging h h'" and "g2 < length h"
    and "getNode (address x) (h ! g2) = Some n2" and "\<not> deepEqual_node x n2"
  shows "merge_node1 g2 (length h) (conservativeResolver deepEqual_node ''nodes'') x h' =
    (Inl (Error (''distinct nodes with address '' @ JSON_stringify (address x))), h')"
  using assms(3,4) merging_nth [OF assms(1,2)]
  by (simp add: merge_node1_def conservativeResolver_def)

lemma edge1_agree:
  assumes "merging h h'" and "g2 < length h"
    and "case getEdge (address x) (h ! g2) of None \<Rightarrow> True | Some e2 \<Rightarrow> deepEqual_edge x e2"
  shows "merge_edge1 g2 (length h) (conservativeResolver deepEqual_edge ''edges'') x h' =
    call (length h) (addEdge x) h'"
  using assms(3) merging_nth [OF assms(1,2)]
  by (simp add: merge_edge1_def conservativeResolver_def split: option.splits)

lemma edge1_conflict:
  assumes "merging h h'" and "g2 < length h"
    and "getEdge (address x) (h ! g2) = Some e2" and "\<not> deepEqual_edge x e2"
  shows "merge_edge1 g2 (length h) (conservativeResolver deepEqual_edge ''edges'') x h' =
    (Inl (Error (''distinct edges with address '' @ JSON_stringify (address x))), h')"
  using assms(3,4) merging_nth [OF assms(1,2)]
  by (simp add: merge_edge1_def conservativeResolver_def)

lemma get_append_fresh:
  "get a m = None \<Longrightarrow> JSON_stringify a \<noteq> k \<Longrightarrow> get a (m @ [(k, v)]) = None"
  by (simp add: get_def map_of_append map_add_def split: option.splits)

lemma map_of_append_keeps:
  "map_of m k = Some u \<Longrightarrow> map_of (m @ m') k = Some u"
  by (simp add: map_of_append)

lemma distinct_map_head:
  assumes "distinct (map f (x # xs))" and "y \<in> set xs"
  shows "f y \<noteq> f x"
proof
  assume "f y = f x"
  moreover from assms(2) have "f y \<in> f ` set xs"
    by (rule imageI)
  ultimately have "f x \<in> f ` set xs"
    by simp
  with assms(1) show False
    by simp
qed

lemma node1_loop:
  assumes g2: "g2 < length h"
  shows "merging h h' \<Longrightarrow>
    distinct (map (\<lambda>x. JSON_stringify (address x)) xs) \<Longrightarrow>
    \<forall>x \<in> set xs. getNode (address x) (h' ! length h) = None \<Longrightarrow>
    \<forall>x \<in> set xs. case getNode (address x) (h ! g2) of
       None \<Rightarrow> True | Some n2 \<Rightarrow> deepEqual_node x n2 \<Longrightarrow>
    \<exists>h''. forEach (merge_node1 g2 (length h) (conservativeResolver deepEqual_node ''nodes''))
        xs h' = (Inr (), h'') \<and> merging h h'' \<and>
      u_nodes (h'' ! length h) =
        u_nodes (h' ! length h) @ map (\<lambda>x. (JSON_stringify (address x), x)) xs \<and>
      u_edges (h'' ! length h) = u_edges (h' ! length h)"
proof (induction xs arbitrary: h')
  case Nil
  then show ?case by simp
next
  case (Cons x xs)
  from Cons.prems(4) have
    "case getNode (address x) (h ! g2) of None \<Rightarrow> True | Some n2 \<Rightarrow> deepEqual_node x n2"
    by simp
  from node1_agree [OF Cons.prems(1) g2 this]
  have step: "merge_node1 g2 (length h) (conservativeResolver deepEqual_node ''nodes'') x h' =
      call (length h) (addNode x) h'" .
  from Cons.prems(3) have "getNode (address x) (h' ! length h) = None"
    by simp
  from call_addNode_fresh [OF Cons.prems(1) this] obtain h1 where
    c: "call (length h) (addNode x) h' = (Inr (), h1)" and m1: "merging h h1"
    and n1: "u_nodes (h1 ! length h) = u_nodes (h' ! length h) @ [(JSON_stringify (address x), x)]"
    and e1: "u_edges (h1 ! length h) = u_edges (h' ! length h)"
    by blast
  have fresh: "\<forall>y \<in> set xs. getNode (address y) (h1 ! length h) = None"
  proof
    fix y assume y: "y \<in> set xs"
    with Cons.prems(2) have "JSON_stringify (address y) \<noteq> JSON_stringify (address x)"
      by (rule distinct_map_head)
    moreover from Cons.prems(3) y have "get (address y) (u_nodes (h' ! length h)) = None"
      by (simp add: getNode_def)
    ultimately show "getNode (address y) (h1 ! length h) = None"
      unfolding getNode_def n1 by (intro get_append_fresh)
  qed
  from Cons.prems(2) have d: "distinct (map (\<lambda>x. JSON_stringify (address x)) xs)"
    by simp
  from Cons.prems(4) have a: "\<forall>x \<in> set xs. case getNode (address x) (h ! g2) of
       None \<Rightarrow> True | Some n2 \<Rightarrow> deepEqual_node x n2"
    by simp
  from Cons.IH [OF m1 d fresh a] obtain h'' where
    "forEach (merge_node1 g2 (length h) (conservativeResolver deepEqual_node ''nodes''))
        xs h1 = (Inr (), h'')" "merging h h''"
    "u_nodes (h'' ! length h) =
        u_nodes (h1 ! length h) @ map (\<lambda>x. (JSON_stringify (address x), x)) xs"
    "u_edges (h'' ! length h) = u_edges (h1 ! length h)"
    by blast
  with step c n1 e1 show ?case
    by simp
qed

lemma node1_loop_conflict:
  assumes g2: "g2 < length h"
  shows "merging h h' \<Longrightarrow>
    distinct (map (\<lambda>x. JSON_stringify (address x)) xs) \<Longrightarrow>
    \<forall>x \<in> set xs. getNode (address x) (h' ! length h) = None \<Longrightarrow>
    \<exists>x \<in> set xs. \<exists>n2. getNode (address x) (h ! g2) = Some n2 \<and> \<not> deepEqual_node x n2 \<Longrightarrow>
    \<exists>x \<in> set xs. \<exists>n2. getNode (address x) (h ! g2) = Some n2 \<and> \<not> deepEqual_node x n2 \<and>
      fst (forEach (merge_node1 g2 (length h) (conservativeResolver deepEqual_node ''nodes''))
        xs h') = Inl (Error (''distinct nodes with address '' @ JSON_stringify (address x)))"
proof (induction xs arbitrary: h')
  case Nil
  then show ?case by simp
next
  case (Cons x xs)
  show ?case
  proof (cases "\<exists>n2. getNode (address x) (h ! g2) = Some n2 \<and> \<not> deepEqual_node x n2")
    case True
    then obtain n2 where n2: "getNode (address x) (h ! g2) = Some n2" "\<not> deepEqual_node x n2"
      by blast
    from node1_conflict [OF Cons.prems(1) g2 n2] n2 show ?thesis
      by auto
  next
    case False
    then have "case getNode (address x) (h ! g2) of None \<Rightarrow> True | Some n2 \<Rightarrow> deepEqual_node x n2"
      by (auto split: option.splits)
    from node1_agree [OF Cons.prems(1) g2 this]
    have step: "merge_node1 g2 (length h) (conservativeResolver deepEqual_node ''nodes'') x h' =
        call (length h) (addNode x) h'" .
    from Cons.prems(3) have "getNode (address x) (h' ! length h) = None"
      by simp
    from call_addNode_fresh [OF Cons.prems(1) this] obtain h1 where
      c: "call (length h) (addNode x) h' = (Inr (), h1)" and m1: "merging h h1"
      and n1: "u_nodes (h1 ! length h) = u_nodes (h' ! length h) @ [(JSON_stringify (address x), x)]"
      by blast
    have fresh: "\<forall>y \<in> set xs. getNode (address y) (h1 ! length h) = None"
    proof
      fix y assume y: "y \<in> set xs"
      with Cons.prems(2) have "JSON_stringify (address y) \<noteq> JSON_stringify (address x)"
        by (rule distinct_map_head)
      moreover from Cons.prems(3) y have "get (address y) (u_nodes (h' ! length h)) = None"
        by (simp add: getNode_def)
      ultimately show "getNode (address y) (h1 ! length h) = None"
        unfolding getNode_def n1 by (intro get_append_fresh)
    qed
    from Cons.prems(2) have d: "distinct (map (\<lambda>x. JSON_stringify (address x)) xs)"
      by simp
    from Cons.prems(4) False
    have "\<exists>x \<in> set xs. \<exists>n2. getNode (address x) (h ! g2) = Some n2 \<and> \<not> deepEqual_node x n2"
      by auto
    from Cons.IH [OF m1 d fresh this] obtain y n2 where "y \<in> set xs"
      "getNode (address y) (h ! g2) = Some n2" "\<not> deepEqual_node y n2"
      "fst (forEach (merge_node1 g2 (length h) (conservativeResolver deepEqual_node ''nodes''))
        xs h1) = Inl (Error (''distinct nodes with address '' @ JSON_stringify (address y)))"
      by blast
    with step c show ?thesis
      by (intro bexI [of _ y] exI [of _ n2]) simp_all
  qed
qed

lemma node2_loop:
  "merging h h' \<Longrightarrow>
   \<exists>h''. forEach (merge_node2 (length h)) ys h' = (Inr (), h'') \<and> merging h h'' \<and>
     (\<forall>k u. map_of (u_nodes (h' ! length h)) k = Some u \<longrightarrow>
        map_of (u_nodes (h'' ! length h)) k = Some u) \<and>
     (\<forall>y \<in> set ys. getNode (address y) (h'' ! length h) \<noteq> None) \<and>
     u_edges (h'' ! length h) = u_edges (h' ! length h)"
proof (induction ys arbitrary: h')
  case Nil
  then show ?case by simp
next
  case (Cons y ys)
  have "\<exists>h1. merge_node2 (length h) y h' = (Inr (), h1) \<and> merging h h1 \<and>
     (\<forall>k u. map_of (u_nodes (h' ! length h)) k = Some u \<longrightarrow>
        map_of (u_nodes (h1 ! length h)) k = Some u) \<and>
     getNode (address y) (h1 ! length h) \<noteq> None \<and>
     u_edges (h1 ! length h) = u_edges (h' ! length h)"
  proof (cases "getNode (address y) (h' ! length h)")
    case None
    from call_addNode_fresh [OF Cons.prems None] obtain h1 where
      c: "call (length h) (addNode y) h' = (Inr (), h1)" and m1: "merging h h1"
      and n1: "u_nodes (h1 ! length h) = u_nodes (h' ! length h) @ [(JSON_stringify (address y), y)]"
      and e1: "u_edges (h1 ! length h) = u_edges (h' ! length h)"
      by blast
    from None have "map_of (u_nodes (h' ! length h)) (JSON_stringify (address y)) = None"
      by (simp add: getNode_def get_def)
    then have "getNode (address y) (h1 ! length h) = Some y"
      by (simp add: getNode_def get_def n1 map_of_append map_add_def)
    with None c m1 n1 e1 show ?thesis
      by (simp add: merge_node2_def map_of_append map_add_def)
  next
    case (Some existing)
    with Cons.prems show ?thesis
      by (simp add: merge_node2_def)
  qed
  then obtain h1 where s: "merge_node2 (length h) y h' = (Inr (), h1)" and m1: "merging h h1"
    and k1: "\<forall>k u. map_of (u_nodes (h' ! length h)) k = Some u \<longrightarrow>
        map_of (u_nodes (h1 ! length h)) k = Some u"
    and y1: "getNode (address y) (h1 ! length h) \<noteq> None"
    and e1: "u_edges (h1 ! length h) = u_edges (h' ! length h)"
    by blast
  from Cons.IH [OF m1] obtain h'' where
    f: "forEach (merge_node2 (length h)) ys h1 = (Inr (), h'')" and m: "merging h h''"
    and k: "\<forall>k u. map_of (u_nodes (h1 ! length h)) k = Some u \<longrightarrow>
        map_of (u_nodes (h'' ! length h)) k = Some u"
    and ys: "\<forall>y \<in> set ys. getNode (address y) (h'' ! length h) \<noteq> None"
    and e: "u_edges (h'' ! length h) = u_edges (h1 ! length h)"
    by blast
  from y1 k have "getNode (address y) (h'' ! length h) \<noteq> None"
    by (auto simp: getNode_def get_def)
  with s f m k1 k ys e1 e show ?case
    by auto
qed

lemma getNode_same_nodes: "u_nodes g' = u_nodes g \<Longrightarrow> getNode a g' = getNode a g"
  by (simp add: getNode_def)

lemma edge1_loop:
  assumes g2: "g2 < length h"
  shows "merging h h' \<Longrightarrow>
    distinct (map (\<lambda>x. JSON_stringify (address x)) xs) \<Longrightarrow>
    \<forall>x \<in> set xs. getEdge (address x) (h' ! length h) = None \<Longrightarrow>
    \<forall>x \<in> set xs. getNode (src x) (h' ! length h) \<noteq> None \<and>
      getNode (dst x) (h' ! length h) \<noteq> None \<Longrightarrow>
    \<forall>x \<in> set xs. case getEdge (address x) (h ! g2) of
       None \<Rightarrow> True | Some e2 \<Rightarrow> deepEqual_edge x e2 \<Longrightarrow>
    \<exists>h''. forEach (merge_edge1 g2 (length h) (conservativeResolver deepEqual_edge ''edges''))
        xs h' = (Inr (), h'') \<and> merging h h'' \<and>
      u_edges (h'' ! length h) =
        u_edges (h' ! length h) @ map (\<lambda>x. (JSON_stringify (address x), x)) xs \<and>
      u_nodes (h'' ! length h) = u_nodes (h' ! length h)"
proof (induction xs arbitrary: h')
  case Nil
  then show ?case by simp
next
  case (Cons x xs)
  from Cons.prems(5) have
    "case getEdge (address x) (h ! g2) of None \<Rightarrow> True | Some e2 \<Rightarrow> deepEqual_edge x e2"
    by simp
  from edge1_agree [OF Cons.prems(1) g2 this]
  have step: "merge_edge1 g2 (length h) (conservativeResolver deepEqual_edge ''edges'') x h' =
      call (length h) (addEdge x) h'" .
  from Cons.prems(3,4) have "getEdge (address x) (h' ! length h) = None"
    and "getNode (src x) (h' ! length h) \<noteq> None" and "getNode (dst x) (h' ! length h) \<noteq> None"
    by simp_all
  from call_addEdge_fresh [OF Cons.prems(1) this] obtain h1 where
    c: "call (length h) (addEdge x) h' = (Inr (), h1)" and m1: "merging h h1"
    and e1: "u_edges (h1 ! length h) = u_edges (h' ! length h) @ [(JSON_stringify (address x), x)]"
    and n1: "u_nodes (h1 ! length h) = u_nodes (h' ! length h)"
    by blast
  have fresh: "\<forall>y \<in> set xs. getEdge (address y) (h1 ! length h) = None"
  proof
    fix y assume y: "y \<in> set xs"
    with Cons.prems(2) have "JSON_stringify (address y) \<noteq> JSON_stringify (address x)"
      by (rule distinct_map_head)
    moreover from Cons.prems(3) y have "get (address y) (u_edges (h' ! length h)) = None"
      by (simp add: getEdge_def)
    ultimately show "getEdge (address y) (h1 ! length h) = None"
      unfolding getEdge_def e1 by (intro get_append_fresh)
  qed
  from Cons.prems(4) have ends: "\<forall>x \<in> set xs. getNode (src x) (h1 ! length h) \<noteq> None \<and>
      getNode (dst x) (h1 ! length h) \<noteq> None"
    by (simp add: getNode_same_nodes [OF n1])
  from Cons.prems(2) have d: "distinct (map (\<lambda>x. JSON_stringify (address x)) xs)"
    by simp
  from Cons.prems(5) have a: "\<forall>x \<in> set xs. case getEdge (address x) (h ! g2) of
       None \<Rightarrow> True | Some e2 \<Rightarrow> deepEqual_edge x e2"
    by simp
  from Cons.IH [OF m1 d fresh ends a] obtain h'' where
    "forEach (merge_edge1 g2 (length h) (conservativeResolver deepEqual_edge ''edges''))
        xs h1 = (Inr (), h'')" "merging h h''"
    "u_edges (h'' ! length h) =
        u_edges (h1 ! length h) @ map (\<lambda>x. (JSON_stringify (address x), x)) xs"
    "u_nodes (h'' ! length h) = u_nodes (h1 ! length h)"
    by blast
  with step c n1 e1 show ?case
    by simp
qed

lemma edge1_loop_conflict:
  assumes g2: "g2 < length h"
  shows "merging h h' \<Longrightarrow>
    distinct (map (\<lambda>x. JSON_stringify (address x)) xs) \<Longrightarrow>
    \<forall>x \<in> set xs. getEdge (address x) (h' ! length h) = None \<Longrightarrow>
    \<forall>x \<in> set xs. getNode (src x) (h' ! length h) \<noteq> None \<and>
      getNode (dst x) (h' ! length h) \<noteq> None \<Longrightarrow>
    \<exists>x \<in> set xs. \<exists>e2. getEdge (address x) (h ! g2) = Some e2 \<and> \<not> deepEqual_edge x e2 \<Longrightarrow>
    \<exists>x \<in> set xs. \<exists>e2. getEdge (address x) (h ! g2) = Some e2 \<and> \<not> deepEqual_edge x e2 \<and>
      fst (forEach (merge_edge1 g2 (length h) (conservativeResolver deepEqual_edge ''edges''))
        xs h') = Inl (Error (''distinct edges with address '' @ JSON_stringify (address x)))"
proof (induction xs arbitrary: h')
  case Nil
  then show ?case by simp
next
  case (Cons x xs)
  show ?case
  proof (cases "\<exists>e2. getEdge (address x) (h ! g2) = Some e2 \<and> \<not> deepEqual_edge x e2")
    case True
    then obtain e2 where e2: "getEdge (address x) (h ! g2) = Some e2" "\<not> deepEqual_edge x e2"
      by blast
    from edge1_conflict [OF Cons.prems(1) g2 e2] e2 show ?thesis
      by auto
  next
    case False
    then have "case getEdge (address x) (h ! g2) of None \<Rightarrow> True | Some e2 \<Rightarrow> deepEqual_edge x e2"
      by (auto split: option.splits)
    from edge1_agree [OF Cons.prems(1) g2 this]
    have step: "merge_edge1 g2 (length h) (conservativeResolver deepEqual_edge ''edges'') x h' =
        call (length h) (addEdge x) h'" .
    from Cons.prems(3,4) have "getEdge (address x) (h' ! length h) = None"
      and "getNode (src x) (h' ! length h) \<noteq> None" and "getNode (dst x) (h' ! length h) \<noteq> None"
      by simp_all
    from call_addEdge_fresh [OF Cons.prems(1) this] obtain h1 where
      c: "call (length h) (addEdge x) h' = (Inr (), h1)" and m1: "merging h h1"
      and e1: "u_edges (h1 ! length h) = u_edges (h' ! length h) @ [(JSON_stringify (address x), x)]"
      and n1: "u_nodes (h1 ! length h) = u_nodes (h' ! length h)"
      by blast
    have fresh: "\<forall>y \<in> set xs. getEdge (address y) (h1 ! length h) = None"
    proof
      fix y assume y: "y \<in> set xs"
      with Cons.prems(2) have "JSON_stringify (address y) \<noteq> JSON_stringify (address x)"
        by (rule distinct_map_head)
      moreover from Cons.prems(3) y have "get (address y) (u_edges (h' ! length h)) = None"
        by (simp add: getEdge_def)
      ultimately show "getEdge (address y) (h1 ! length h) = None"
        unfolding getEdge_def e1 by (intro get_append_fresh)
    qed
    from Cons.prems(4) have ends: "\<forall>x \<in> set xs. getNode (src x) (h1 ! length h) \<noteq> None \<and>
        getNode (dst x) (h1 ! length h) \<noteq> None"
      by (simp add: getNode_same_nodes [OF n1])
    from Cons.prems(2) have d: "distinct (map (\<lambda>x. JSON_stringify (address x)) xs)"
      by simp
    from Cons.prems(5) False
    have "\<exists>x \<in> set xs. \<exists>e2. getEdge (address x) (h ! g2) = Some e2 \<and> \<not> deepEqual_edge x e2"
      by auto
    from Cons.IH [OF m1 d fresh ends this] obtain y e2 where "y \<in> set xs"
      "getEdge (address y) (h ! g2) = Some e2" "\<not> deepEqual_edge y e2"
      "fst (forEach (merge_edge1 g2 (length h) (conservativeResolver deepEqual_edge ''edges''))
        xs h1) = Inl (Error (''distinct edges with address '' @ JSON_stringify (address y)))"
      by blast
    with step c show ?thesis
      by (intro bexI [of _ y] exI [of _ e2]) simp_all
  qed
qed

lemma edge2_loop:
  "merging h h' \<Longrightarrow>
   \<forall>y \<in> set ys. getNode (src y) (h' ! length h) \<noteq> None \<and>
     getNode (dst y) (h' ! length h) \<noteq> None \<Longrightarrow>
   \<exists>h''. forEach (merge_edge2 (length h)) ys h' = (Inr (), h'') \<and> merging h h'' \<and>
     (\<forall>k u. map_of (u_edges (h' ! length h)) k = Some u \<longrightarrow>
        map_of (u_edges (h'' ! length h)) k = Some u) \<and>
     (\<forall>y \<in> set ys. getEdge (address y) (h'' ! length h) \<noteq> None) \<and>
     u_nodes (h'' ! length h) = u_nodes (h' ! length h)"
proof (induction ys arbitrary: h')
  case Nil
  then show ?case by simp
next
  case (Cons y ys)
  have "\<exists>h1. merge_edge2 (length h) y h' = (Inr (), h1) \<and> merging h h1 \<and>
     (\<forall>k u. map_of (u_edges (h' ! length h)) k = Some u \<longrightarrow>
        map_of (u_edges (h1 ! length h)) k = Some u) \<and>
     getEdge (address y) (h1 ! length h) \<noteq> None \<and>
     u_nodes (h1 ! length h) = u_nodes (h' ! length h)"
  proof (cases "getEdge (address y) (h' ! length h)")
    case None
    from Cons.prems(2) have "getNode (src y) (h' ! length h) \<noteq> None"
      and "getNode (dst y) (h' ! length h) \<noteq> None"
      by simp_all
    from call_addEdge_fresh [OF Cons.prems(1) None this] obtain h1 where
      c: "call (length h) (addEdge y) h' = (Inr (), h1)" and m1: "merging h h1"
      and e1: "u_edges (h1 ! length h) = u_edges (h' ! length h) @ [(JSON_stringify (address y), y)]"
      and n1: "u_nodes (h1 ! length h) = u_nodes (h' ! length h)"
      by blast
    from None have "map_of (u_edges (h' ! length h)) (JSON_stringify (address y)) = None"
      by (simp add: getEdge_def get_def)
    then have "getEdge (address y) (h1 ! length h) = Some y"
      by (simp add: getEdge_def get_def e1 map_of_append map_add_def)
    with None c m1 e1 n1 show ?thesis
      by (simp add: merge_edge2_def map_of_append map_add_def)
  next
    case (Some existing)
    with Cons.prems show ?thesis
      by (simp add: merge_edge2_def)
  qed
  then obtain h1 where s: "merge_edge2 (length h) y h' = (Inr (), h1)" and m1: "merging h h1"
    and k1: "\<forall>k u. map_of (u_edges (h' ! length h)) k = Some u \<longrightarrow>
        map_of (u_edges (h1 ! length h)) k = Some u"
    and y1: "getEdge (address y) (h1 ! length h) \<noteq> None"
    and n1: "u_nodes (h1 ! length h) = u_nodes (h' ! length h)"
    by blast
  from Cons.prems(2) have "\<forall>y \<in> set ys. getNode (src y) (h1 ! length h) \<noteq> None \<and>
      getNode (dst y) (h1 ! length h) \<noteq> None"
    by (simp add: getNode_same_nodes [OF n1])
  from Cons.IH [OF m1 this] obtain h'' where
    f: "forEach (merge_edge2 (length h)) ys h1 = (Inr (), h'')" and m: "merging h h''"
    and k: "\<forall>k u. map_of (u_edges (h1 ! length h)) k = Some u \<longrightarrow>
        map_of (u_edges (h'' ! length h)) k = Some u"
    and ys: "\<forall>y \<in> set ys. getEdge (address y) (h'' ! length h) \<noteq> None"
    and n: "u_nodes (h'' ! length h) = u_nodes (h1 ! length h)"
    by blast
  from y1 k have "getEdge (address y) (h'' ! length h) \<noteq> None"
    by (auto simp: getEdge_def get_def)
  with s f m k1 k ys n1 n show ?case
    by auto
qed

lemma keyed_entries:
  assumes "keyed_by_address m"
  shows "map (\<lambda>u. (JSON_stringify (address u), u)) (getAll m) = m"
proof -
  from assms have "\<forall>(k, u) \<in> set m. k = JSON_stringify (address u)"
    by (simp add: keyed_by_address_def)
  then show ?thesis
    unfolding getAll_def by (induction m) auto
qed

lemma keyed_distinct:
  assumes "keyed_by_address m"
  shows "distinct (map (\<lambda>u. JSON_stringify (address u)) (getAll m))"
proof -
  have "map (\<lambda>u. JSON_stringify (address u)) (getAll m) =
      map fst (map (\<lambda>u. (JSON_stringify (address u), u)) (getAll m))"
    by simp
  also have "\<dots> = keys m"
    by (simp only: keyed_entries [OF assms] keys_def)
  finally show ?thesis
    using assms by (simp add: keyed_by_address_def)
qed

lemma keyed_single:
  "keyed_by_address m \<Longrightarrow> map_of m (JSON_stringify a) = Some u \<Longrightarrow>
   [n \<leftarrow> getAll m. JSON_stringify (address n) = JSON_stringify a] = [u]"
proof (induction m)
  case Nil
  then show ?case by simp
next
  case (Cons kv m)
  obtain k v where kv: "kv = (k, v)" by (cases kv)
  from Cons.prems(1) kv have k: "k = JSON_stringify (address v)"
    and rest: "keyed_by_address m" and new: "k \<notin> set (keys m)"
    by (auto simp: keyed_by_address_def keys_def)
  show ?case
  proof (cases "k = JSON_stringify a")
    case True
    with Cons.prems(2) kv have "v = u" by simp
    moreover have "[n \<leftarrow> getAll m. JSON_stringify (address n) = JSON_stringify a] = []"
    proof -
      have "JSON_stringify (address n) \<noteq> JSON_stringify a" if "n \<in> set (getAll m)" for n
        using keyed_by_address_key [OF rest that] new True by auto
      then show ?thesis
        by (simp add: filter_empty_conv)
    qed
    ultimately show ?thesis
      using kv k True by (simp add: getAll_def)
  next
    case False
    with Cons.prems(2) kv have "map_of m (JSON_stringify a) = Some u" by simp
    from Cons.IH [OF rest this] kv k False show ?thesis
      by (simp add: getAll_def)
  qed
qed

lemma endpoints_stored:
  assumes "well_formed g" and "e \<in> set (getAllEdges g)"
  shows "getNode (src e) g \<noteq> None \<and> getNode (dst e) g \<noteq> None"
proof -
  from assms have inv: "graph_invariant g"
    by (simp add: well_formed_def)
  with assms(2) have "once_at (src e) (address e) (u_outEdges g)"
    and "once_at (dst e) (address e) (u_inEdges g)"
    by (simp_all add: graph_invariant_def)
  then have "JSON_stringify (src e) \<in> set (keys (u_outEdges g))"
    and "JSON_stringify (dst e) \<in> set (keys (u_inEdges g))"
    by (simp_all add: once_at_key)
  with inv show ?thesis
    by (simp add: graph_invariant_def getNode_def get_None_iff)
qed

lemma keyed_get_key:
  assumes "keyed_by_address m" and "get a m = Some u"
  shows "JSON_stringify (address u) = JSON_stringify a"
proof -
  from assms(1) have "\<forall>x \<in> set m. case x of (k, u) \<Rightarrow> k = JSON_stringify (address u)"
    by (simp add: keyed_by_address_def)
  moreover from assms(2) have "map_of m (JSON_stringify a) = Some u"
    by (simp add: get_def)
  then have "(JSON_stringify a, u) \<in> set m"
    by (rule map_of_SomeD)
  ultimately have "case (JSON_stringify a, u) of (k, u) \<Rightarrow> k = JSON_stringify (address u)"
    by (rule bspec)
  then show ?thesis
    by simp
qed

lemma getNode_by_key:
  "JSON_stringify a = JSON_stringify b \<Longrightarrow> getNode a g = getNode b g"
  by (simp add: getNode_def get_def)

lemma getNode_Graph_new: "getNode a Graph_new = None"
  by (simp add: getNode_def get_def Graph_new_def AddressMap_new_def)


lemma merge_nodes_agree:
  assumes g1: "g1 < length h" and g2: "g2 < length h"
    and wf1: "well_formed (h ! g1)"
    and ag: "\<forall>n1 \<in> set (getAllNodes (h ! g1)).
        case getNode (address n1) (h ! g2) of None \<Rightarrow> True | Some n2 \<Rightarrow> deepEqual_node n1 n2"
  shows "\<exists>h1 h2.
    forEach (merge_node1 g2 (length h) (conservativeResolver deepEqual_node ''nodes''))
      (getAllNodes ((h @ [Graph_new]) ! g1)) (h @ [Graph_new]) = (Inr (), h1) \<and>
    forEach (merge_node2 (length h)) (getAllNodes (h1 ! g2)) h1 = (Inr (), h2) \<and>
    merging h h2 \<and>
    (\<forall>k u. map_of (u_nodes (h ! g1)) k = Some u \<longrightarrow>
       map_of (u_nodes (h2 ! length h)) k = Some u) \<and>
    (\<forall>y \<in> set (getAllNodes (h ! g2)). getNode (address y) (h2 ! length h) \<noteq> None) \<and>
    u_edges (h2 ! length h) = []"
proof -
  let ?h0 = "h @ [Graph_new]"
  have m0: "merging h ?h0"
    by (simp add: merging_def well_formed_Graph_new)
  have r0: "?h0 ! length h = Graph_new"
    by simp
  from g1 have x0: "?h0 ! g1 = h ! g1"
    by (simp add: nth_append)
  from wf1 have k1: "keyed_by_address (u_nodes (h ! g1))"
    by (simp add: well_formed_def)
  have d: "distinct (map (\<lambda>x. JSON_stringify (address x)) (getAllNodes (?h0 ! g1)))"
    unfolding x0 getAllNodes_def by (rule keyed_distinct [OF k1])
  have f: "\<forall>x \<in> set (getAllNodes (?h0 ! g1)). getNode (address x) (?h0 ! length h) = None"
    by (simp add: getNode_Graph_new)
  from ag have a: "\<forall>x \<in> set (getAllNodes (?h0 ! g1)).
      case getNode (address x) (h ! g2) of None \<Rightarrow> True | Some n2 \<Rightarrow> deepEqual_node x n2"
    unfolding x0 .
  from node1_loop [OF g2 m0 d f a] obtain h1 where
    l1: "forEach (merge_node1 g2 (length h) (conservativeResolver deepEqual_node ''nodes''))
      (getAllNodes (?h0 ! g1)) ?h0 = (Inr (), h1)" and m1: "merging h h1"
    and n1: "u_nodes (h1 ! length h) = u_nodes (?h0 ! length h) @
        map (\<lambda>x. (JSON_stringify (address x), x)) (getAllNodes (?h0 ! g1))"
    and e1: "u_edges (h1 ! length h) = u_edges (?h0 ! length h)"
    by (elim exE conjE) (rule that)
  from n1 have n1': "u_nodes (h1 ! length h) = u_nodes (h ! g1)"
    unfolding x0 r0 getAllNodes_def
    by (simp add: keyed_entries [OF k1] Graph_new_def AddressMap_new_def)
  from e1 have e1': "u_edges (h1 ! length h) = []"
    by (simp add: Graph_new_def AddressMap_new_def)
  from node2_loop [OF m1, of "getAllNodes (h1 ! g2)"] obtain h2 where
    l2: "forEach (merge_node2 (length h)) (getAllNodes (h1 ! g2)) h1 = (Inr (), h2)"
    and m2: "merging h h2"
    and k2: "\<forall>k u. map_of (u_nodes (h1 ! length h)) k = Some u \<longrightarrow>
        map_of (u_nodes (h2 ! length h)) k = Some u"
    and p2: "\<forall>y \<in> set (getAllNodes (h1 ! g2)). getNode (address y) (h2 ! length h) \<noteq> None"
    and e2: "u_edges (h2 ! length h) = u_edges (h1 ! length h)"
    by (elim exE conjE) (rule that)
  from p2 have p: "\<forall>y \<in> set (getAllNodes (h ! g2)). getNode (address y) (h2 ! length h) \<noteq> None"
    by (simp add: merging_nth [OF m1 g2])
  from k2 have k: "\<forall>k u. map_of (u_nodes (h ! g1)) k = Some u \<longrightarrow>
       map_of (u_nodes (h2 ! length h)) k = Some u"
    unfolding n1' .
  from e2 e1' have e: "u_edges (h2 ! length h) = []"
    by simp
  show ?thesis
    by (intro exI conjI) (fact l1, fact l2, fact m2, fact k, fact p, fact e)
qed

lemma merge_edges_agree:
  assumes g1: "g1 < length h" and g2: "g2 < length h"
    and wf1: "well_formed (h ! g1)" and wf2: "well_formed (h ! g2)"
    and m2: "merging h h2"
    and k2: "\<forall>k u. map_of (u_nodes (h ! g1)) k = Some u \<longrightarrow>
       map_of (u_nodes (h2 ! length h)) k = Some u"
    and p2: "\<forall>y \<in> set (getAllNodes (h ! g2)). getNode (address y) (h2 ! length h) \<noteq> None"
    and e2: "u_edges (h2 ! length h) = []"
  shows "(\<forall>x \<in> set (getAllEdges (h2 ! g1)). getEdge (address x) (h2 ! length h) = None) \<and>
    (\<forall>x \<in> set (getAllEdges (h2 ! g1)). getNode (src x) (h2 ! length h) \<noteq> None \<and>
       getNode (dst x) (h2 ! length h) \<noteq> None) \<and>
    (\<forall>x \<in> set (getAllEdges (h ! g2)). getNode (src x) (h2 ! length h) \<noteq> None \<and>
       getNode (dst x) (h2 ! length h) \<noteq> None) \<and>
    distinct (map (\<lambda>x. JSON_stringify (address x)) (getAllEdges (h2 ! g1)))"
proof (intro conjI ballI)
  fix x assume "x \<in> set (getAllEdges (h2 ! g1))"
  then have x: "x \<in> set (getAllEdges (h ! g1))"
    by (simp add: merging_nth [OF m2 g1])
  show "getEdge (address x) (h2 ! length h) = None"
    by (simp add: getEdge_def get_def e2)
  have present: "getNode a (h2 ! length h) \<noteq> None" if "getNode a (h ! g1) \<noteq> None" for a
  proof -
    from that obtain u where "map_of (u_nodes (h ! g1)) (JSON_stringify a) = Some u"
      by (auto simp: getNode_def get_def)
    with k2 have "map_of (u_nodes (h2 ! length h)) (JSON_stringify a) = Some u"
      by (elim allE impE)
    then show ?thesis
      by (simp add: getNode_def get_def)
  qed
  from endpoints_stored [OF wf1 x] present
  show "getNode (src x) (h2 ! length h) \<noteq> None" and "getNode (dst x) (h2 ! length h) \<noteq> None"
    by blast+
next
  fix x assume x: "x \<in> set (getAllEdges (h ! g2))"
  from wf2 have kn: "keyed_by_address (u_nodes (h ! g2))"
    by (simp add: well_formed_def)
  have present: "getNode a (h2 ! length h) \<noteq> None" if "getNode a (h ! g2) \<noteq> None" for a
  proof -
    from that obtain y where y: "get a (u_nodes (h ! g2)) = Some y"
      by (auto simp: getNode_def)
    from get_SomeD [OF y] p2 have "getNode (address y) (h2 ! length h) \<noteq> None"
      by (simp add: getAllNodes_def)
    with getNode_by_key [OF keyed_get_key [OF kn y], of "h2 ! length h"] show ?thesis
      by simp
  qed
  from endpoints_stored [OF wf2 x] present
  show "getNode (src x) (h2 ! length h) \<noteq> None" and "getNode (dst x) (h2 ! length h) \<noteq> None"
    by blast+
next
  from wf1 have "keyed_by_address (u_edges (h ! g1))"
    by (simp add: well_formed_def)
  then show "distinct (map (\<lambda>x. JSON_stringify (address x)) (getAllEdges (h2 ! g1)))"
    unfolding merging_nth [OF m2 g1] getAllEdges_def by (rule keyed_distinct)
qed

lemma getEdge_same_edges: "u_edges g' = u_edges g \<Longrightarrow> getEdge a g' = getEdge a g"
  by (simp add: getEdge_def)

lemma merge_fails_in_nodes:
  assumes "fst (forEach (merge_node1 g2 (length h) nodeResolver)
      (getAllNodes ((h @ [Graph_new]) ! g1)) (h @ [Graph_new])) = Inl err"
  shows "fst (merge g1 g2 nodeResolver edgeResolver h) = Inl err"
proof -
  obtain r h1 where f: "forEach (merge_node1 g2 (length h) nodeResolver)
      (getAllNodes ((h @ [Graph_new]) ! g1)) (h @ [Graph_new]) = (r, h1)"
    by (cases "forEach (merge_node1 g2 (length h) nodeResolver)
      (getAllNodes ((h @ [Graph_new]) ! g1)) (h @ [Graph_new])")
  with assms have "r = Inl err" by simp
  with f show ?thesis
    by (simp add: merge_def new_Graph_def)
qed

lemma merge_fails_in_edges:
  assumes "forEach (merge_node1 g2 (length h) nodeResolver)
      (getAllNodes ((h @ [Graph_new]) ! g1)) (h @ [Graph_new]) = (Inr (), h1)"
    and "forEach (merge_node2 (length h)) (getAllNodes (h1 ! g2)) h1 = (Inr (), h2)"
    and "fst (forEach (merge_edge1 g2 (length h) edgeResolver) (getAllEdges (h2 ! g1)) h2) = Inl err"
  shows "fst (merge g1 g2 nodeResolver edgeResolver h) = Inl err"
proof -
  obtain r h3 where f: "forEach (merge_edge1 g2 (length h) edgeResolver)
      (getAllEdges (h2 ! g1)) h2 = (r, h3)"
    by (cases "forEach (merge_edge1 g2 (length h) edgeResolver) (getAllEdges (h2 ! g1)) h2")
  with assms(3) have "r = Inl err" by simp
  with f assms(1,2) show ?thesis
    by (simp add: merge_def new_Graph_def)
qed

lemma merge_returns:
  assumes "forEach (merge_node1 g2 (length h) nodeResolver)
      (getAllNodes ((h @ [Graph_new]) ! g1)) (h @ [Graph_new]) = (Inr (), h1)"
    and "forEach (merge_node2 (length h)) (getAllNodes (h1 ! g2)) h1 = (Inr (), h2)"
    and "forEach (merge_edge1 g2 (length h) edgeResolver) (getAllEdges (h2 ! g1)) h2 = (Inr (), h3)"
    and "forEach (merge_edge2 (length h)) (getAllEdges (h3 ! g2)) h3 = (Inr (), h4)"
  shows "merge g1 g2 nodeResolver edgeResolver h = (Inr (length h), h4)"
  using assms by (simp add: merge_def new_Graph_def)

lemma mergeConservative_agree:
  assumes g1: "g1 < length h" and g2: "g2 < length h"
    and wf1: "well_formed (h ! g1)" and wf2: "well_formed (h ! g2)"
    and ag: "agree (h ! g1) (h ! g2)"
  shows "\<exists>h'. mergeConservative g1 g2 h = (Inr (length h), h') \<and> merging h h' \<and>
    (\<forall>k u. map_of (u_nodes (h ! g1)) k = Some u \<longrightarrow>
       map_of (u_nodes (h' ! length h)) k = Some u) \<and>
    (\<forall>y \<in> set (getAllNodes (h ! g2)). getNode (address y) (h' ! length h) \<noteq> None) \<and>
    (\<forall>k u. map_of (u_edges (h ! g1)) k = Some u \<longrightarrow>
       map_of (u_edges (h' ! length h)) k = Some u) \<and>
    (\<forall>y \<in> set (getAllEdges (h ! g2)). getEdge (address y) (h' ! length h) \<noteq> None)"
proof -
  from ag have an: "\<forall>n1 \<in> set (getAllNodes (h ! g1)).
        case getNode (address n1) (h ! g2) of None \<Rightarrow> True | Some n2 \<Rightarrow> deepEqual_node n1 n2"
    and ae: "\<forall>e1 \<in> set (getAllEdges (h ! g1)).
        case getEdge (address e1) (h ! g2) of None \<Rightarrow> True | Some e2 \<Rightarrow> deepEqual_edge e1 e2"
    by (simp_all add: agree_def)
  from merge_nodes_agree [OF g1 g2 wf1 an] obtain h1 h2 where
    l1: "forEach (merge_node1 g2 (length h) (conservativeResolver deepEqual_node ''nodes''))
      (getAllNodes ((h @ [Graph_new]) ! g1)) (h @ [Graph_new]) = (Inr (), h1)"
    and l2: "forEach (merge_node2 (length h)) (getAllNodes (h1 ! g2)) h1 = (Inr (), h2)"
    and m2: "merging h h2"
    and k2: "\<forall>k u. map_of (u_nodes (h ! g1)) k = Some u \<longrightarrow>
       map_of (u_nodes (h2 ! length h)) k = Some u"
    and p2: "\<forall>y \<in> set (getAllNodes (h ! g2)). getNode (address y) (h2 ! length h) \<noteq> None"
    and e2: "u_edges (h2 ! length h) = []"
    by (elim exE conjE) (rule that)
  note pre = merge_edges_agree [OF g1 g2 wf1 wf2 m2 k2 p2 e2]
  note f3 = pre [THEN conjunct1]
  note s3 = pre [THEN conjunct2, THEN conjunct1]
  note s4 = pre [THEN conjunct2, THEN conjunct2, THEN conjunct1]
  note d3 = pre [THEN conjunct2, THEN conjunct2, THEN conjunct2]
  have x2: "h2 ! g1 = h ! g1"
    by (rule merging_nth [OF m2 g1])
  from ae have a3: "\<forall>x \<in> set (getAllEdges (h2 ! g1)).
      case getEdge (address x) (h ! g2) of None \<Rightarrow> True | Some e2 \<Rightarrow> deepEqual_edge x e2"
    unfolding x2 .
  from edge1_loop [OF g2 m2 d3 f3 s3 a3] obtain h3 where
    l3: "forEach (merge_edge1 g2 (length h) (conservativeResolver deepEqual_edge ''edges''))
        (getAllEdges (h2 ! g1)) h2 = (Inr (), h3)" and m3: "merging h h3"
    and e3: "u_edges (h3 ! length h) =
        u_edges (h2 ! length h) @ map (\<lambda>x. (JSON_stringify (address x), x)) (getAllEdges (h2 ! g1))"
    and n3: "u_nodes (h3 ! length h) = u_nodes (h2 ! length h)"
    by (elim exE conjE) (rule that)
  from wf1 have ke: "keyed_by_address (u_edges (h ! g1))"
    by (simp add: well_formed_def)
  from e3 have e3': "u_edges (h3 ! length h) = u_edges (h ! g1)"
    unfolding x2 e2 getAllEdges_def by (simp add: keyed_entries [OF ke])
  have x3: "h3 ! g2 = h ! g2"
    by (rule merging_nth [OF m3 g2])
  from s4 have s4': "\<forall>y \<in> set (getAllEdges (h3 ! g2)). getNode (src y) (h3 ! length h) \<noteq> None \<and>
      getNode (dst y) (h3 ! length h) \<noteq> None"
    unfolding x3 by (simp add: getNode_same_nodes [OF n3])
  from edge2_loop [OF m3 s4'] obtain h4 where
    l4: "forEach (merge_edge2 (length h)) (getAllEdges (h3 ! g2)) h3 = (Inr (), h4)"
    and m4: "merging h h4"
    and k4: "\<forall>k u. map_of (u_edges (h3 ! length h)) k = Some u \<longrightarrow>
        map_of (u_edges (h4 ! length h)) k = Some u"
    and p4: "\<forall>y \<in> set (getAllEdges (h3 ! g2)). getEdge (address y) (h4 ! length h) \<noteq> None"
    and n4: "u_nodes (h4 ! length h) = u_nodes (h3 ! length h)"
    by (elim exE conjE) (rule that)
  have r: "mergeConservative g1 g2 h = (Inr (length h), h4)"
    unfolding mergeConservative_def by (rule merge_returns [OF l1 l2 l3 l4])
  from k2 have kn: "\<forall>k u. map_of (u_nodes (h ! g1)) k = Some u \<longrightarrow>
       map_of (u_nodes (h4 ! length h)) k = Some u"
    unfolding n4 n3 .
  from p2 have pn: "\<forall>y \<in> set (getAllNodes (h ! g2)). getNode (address y) (h4 ! length h) \<noteq> None"
    by (simp add: getNode_def n4 n3)
  from k4 have kk: "\<forall>k u. map_of (u_edges (h ! g1)) k = Some u \<longrightarrow>
       map_of (u_edges (h4 ! length h)) k = Some u"
    unfolding e3' .
  from p4 have pe: "\<forall>y \<in> set (getAllEdges (h ! g2)). getEdge (address y) (h4 ! length h) \<noteq> None"
    unfolding x3 .
  show ?thesis
    by (intro exI conjI) (fact r, fact m4, fact kn, fact pn, fact kk, fact pe)
qed

lemma mergeConservative_conflict:
  assumes g1: "g1 < length h" and g2: "g2 < length h"
    and wf1: "well_formed (h ! g1)" and wf2: "well_formed (h ! g2)"
    and nag: "\<not> agree (h ! g1) (h ! g2)"
  shows "(\<exists>n1 \<in> set (getAllNodes (h ! g1)). \<exists>n2.
       getNode (address n1) (h ! g2) = Some n2 \<and> \<not> deepEqual_node n1 n2 \<and>
       fst (mergeConservative g1 g2 h) =
         Inl (Error (''distinct nodes with address '' @ JSON_stringify (address n1)))) \<or>
    (\<exists>e1 \<in> set (getAllEdges (h ! g1)). \<exists>e2.
       getEdge (address e1) (h ! g2) = Some e2 \<and> \<not> deepEqual_edge e1 e2 \<and>
       fst (mergeConservative g1 g2 h) =
         Inl (Error (''distinct edges with address '' @ JSON_stringify (address e1))))"
proof (cases "\<exists>x \<in> set (getAllNodes (h ! g1)). \<exists>n2.
    getNode (address x) (h ! g2) = Some n2 \<and> \<not> deepEqual_node x n2")
  case True
  let ?h0 = "h @ [Graph_new]"
  have m0: "merging h ?h0"
    by (simp add: merging_def well_formed_Graph_new)
  from g1 have x0: "?h0 ! g1 = h ! g1"
    by (simp add: nth_append)
  from wf1 have k1: "keyed_by_address (u_nodes (h ! g1))"
    by (simp add: well_formed_def)
  have d: "distinct (map (\<lambda>x. JSON_stringify (address x)) (getAllNodes (?h0 ! g1)))"
    unfolding x0 getAllNodes_def by (rule keyed_distinct [OF k1])
  have f: "\<forall>x \<in> set (getAllNodes (?h0 ! g1)). getNode (address x) (?h0 ! length h) = None"
    by (simp add: getNode_Graph_new)
  from True have c: "\<exists>x \<in> set (getAllNodes (?h0 ! g1)). \<exists>n2.
      getNode (address x) (h ! g2) = Some n2 \<and> \<not> deepEqual_node x n2"
    unfolding x0 .
  from node1_loop_conflict [OF g2 m0 d f c] obtain x n2 where
    x: "x \<in> set (getAllNodes (?h0 ! g1))"
    and n2: "getNode (address x) (h ! g2) = Some n2" "\<not> deepEqual_node x n2"
    and e: "fst (forEach (merge_node1 g2 (length h) (conservativeResolver deepEqual_node ''nodes''))
        (getAllNodes (?h0 ! g1)) ?h0) =
      Inl (Error (''distinct nodes with address '' @ JSON_stringify (address x)))"
    by (elim bexE exE conjE) (rule that)
  from merge_fails_in_nodes [OF e]
  have "fst (mergeConservative g1 g2 h) =
      Inl (Error (''distinct nodes with address '' @ JSON_stringify (address x)))"
    by (simp add: mergeConservative_def)
  with x n2 show ?thesis
    unfolding x0 by (intro disjI1 bexI [of _ x] exI [of _ n2] conjI)
next
  case False
  then have an: "\<forall>n1 \<in> set (getAllNodes (h ! g1)).
        case getNode (address n1) (h ! g2) of None \<Rightarrow> True | Some n2 \<Rightarrow> deepEqual_node n1 n2"
    by (auto split: option.splits)
  with nag have "\<not> (\<forall>e1 \<in> set (getAllEdges (h ! g1)).
        case getEdge (address e1) (h ! g2) of None \<Rightarrow> True | Some e2 \<Rightarrow> deepEqual_edge e1 e2)"
    by (simp add: agree_def)
  then have ce: "\<exists>x \<in> set (getAllEdges (h ! g1)). \<exists>e2.
      getEdge (address x) (h ! g2) = Some e2 \<and> \<not> deepEqual_edge x e2"
    by (auto split: option.splits)
  from merge_nodes_agree [OF g1 g2 wf1 an] obtain h1 h2 where
    l1: "forEach (merge_node1 g2 (length h) (conservativeResolver deepEqual_node ''nodes''))
      (getAllNodes ((h @ [Graph_new]) ! g1)) (h @ [Graph_new]) = (Inr (), h1)"
    and l2: "forEach (merge_node2 (length h)) (getAllNodes (h1 ! g2)) h1 = (Inr (), h2)"
    and m2: "merging h h2"
    and k2: "\<forall>k u. map_of (u_nodes (h ! g1)) k = Some u \<longrightarrow>
       map_of (u_nodes (h2 ! length h)) k = Some u"
    and p2: "\<forall>y \<in> set (getAllNodes (h ! g2)). getNode (address y) (h2 ! length h) \<noteq> None"
    and e2: "u_edges (h2 ! length h) = []"
    by (elim exE conjE) (rule that)
  note pre = merge_edges_agree [OF g1 g2 wf1 wf2 m2 k2 p2 e2]
  note f3 = pre [THEN conjunct1]
  note s3 = pre [THEN conjunct2, THEN conjunct1]
  note d3 = pre [THEN conjunct2, THEN conjunct2, THEN conjunct2]
  have x2: "h2 ! g1 = h ! g1"
    by (rule merging_nth [OF m2 g1])
  from ce have c3: "\<exists>x \<in> set (getAllEdges (h2 ! g1)). \<exists>e2.
      getEdge (address x) (h ! g2) = Some e2 \<and> \<not> deepEqual_edge x e2"
    unfolding x2 .
  from edge1_loop_conflict [OF g2 m2 d3 f3 s3 c3] obtain x e2' where
    x: "x \<in> set (getAllEdges (h2 ! g1))"
    and n2: "getEdge (address x) (h ! g2) = Some e2'" "\<not> deepEqual_edge x e2'"
    and e: "fst (forEach (merge_edge1 g2 (length h) (conservativeResolver deepEqual_edge ''edges''))
        (getAllEdges (h2 ! g1)) h2) =
      Inl (Error (''distinct edges with address '' @ JSON_stringify (address x)))"
    by (elim bexE exE conjE) (rule that)
  from merge_fails_in_edges [OF l1 l2 e]
  have "fst (mergeConservative g1 g2 h) =
      Inl (Error (''distinct edges with address '' @ JSON_stringify (address x)))"
    by (simp add: mergeConservative_def)
  with x n2 show ?thesis
    unfolding x2 by (intro disjI2 bexI [of _ x] exI [of _ e2'] conjI)
qed

lemma single_entry:
  assumes "keyed_by_address m" and "get a m = Some u"
  shows "[n \<leftarrow> getAll m. JSON_stringify (address n) = JSON_stringify a] = [u]"
  using assms by (simp add: get_def keyed_single)

text \<open>
  C7: for two graphs built by the methods (well-formed graphs) that agree,
  \<open>mergeConservative\<close> returns a new graph in which every node of the first graph is
  the one node at its address, every node of the second graph has exactly one node
  at its address, and the same for the edges: an address that the two graphs share
  has one entry, the entry of the first graph. For two such graphs that do not
  agree, it throws \<open>distinct nodes with address ...\<close> with the address of a node of
  the first graph that is not deep-equal to the node at that address in the second,
  or \<open>distinct edges with address ...\<close> with the address of such an edge.
\<close>

theorem mergeConservative_agree_or_conflict:
  assumes "g1 < length h" and "g2 < length h"
    and "well_formed (h ! g1)" and "well_formed (h ! g2)"
  shows "(agree (h ! g1) (h ! g2) \<longrightarrow>
      (\<exists>h'. mergeConservative g1 g2 h = (Inr (length h), h') \<and>
         (\<forall>n1 \<in> set (getAllNodes (h ! g1)).
            [n \<leftarrow> getAllNodes (h' ! length h).
               JSON_stringify (address n) = JSON_stringify (address n1)] = [n1]) \<and>
         (\<forall>n2 \<in> set (getAllNodes (h ! g2)).
            length [n \<leftarrow> getAllNodes (h' ! length h).
               JSON_stringify (address n) = JSON_stringify (address n2)] = 1) \<and>
         (\<forall>e1 \<in> set (getAllEdges (h ! g1)).
            [e \<leftarrow> getAllEdges (h' ! length h).
               JSON_stringify (address e) = JSON_stringify (address e1)] = [e1]) \<and>
         (\<forall>e2 \<in> set (getAllEdges (h ! g2)).
            length [e \<leftarrow> getAllEdges (h' ! length h).
               JSON_stringify (address e) = JSON_stringify (address e2)] = 1))) \<and>
    (\<not> agree (h ! g1) (h ! g2) \<longrightarrow>
      (\<exists>n1 \<in> set (getAllNodes (h ! g1)). \<exists>n2.
         getNode (address n1) (h ! g2) = Some n2 \<and> \<not> deepEqual_node n1 n2 \<and>
         fst (mergeConservative g1 g2 h) =
           Inl (Error (''distinct nodes with address '' @ JSON_stringify (address n1)))) \<or>
      (\<exists>e1 \<in> set (getAllEdges (h ! g1)). \<exists>e2.
         getEdge (address e1) (h ! g2) = Some e2 \<and> \<not> deepEqual_edge e1 e2 \<and>
         fst (mergeConservative g1 g2 h) =
           Inl (Error (''distinct edges with address '' @ JSON_stringify (address e1)))))"
proof (intro conjI impI)
  assume "\<not> agree (h ! g1) (h ! g2)"
  with assms show "(\<exists>n1 \<in> set (getAllNodes (h ! g1)). \<exists>n2.
         getNode (address n1) (h ! g2) = Some n2 \<and> \<not> deepEqual_node n1 n2 \<and>
         fst (mergeConservative g1 g2 h) =
           Inl (Error (''distinct nodes with address '' @ JSON_stringify (address n1)))) \<or>
      (\<exists>e1 \<in> set (getAllEdges (h ! g1)). \<exists>e2.
         getEdge (address e1) (h ! g2) = Some e2 \<and> \<not> deepEqual_edge e1 e2 \<and>
         fst (mergeConservative g1 g2 h) =
           Inl (Error (''distinct edges with address '' @ JSON_stringify (address e1))))"
    by (rule mergeConservative_conflict)
next
  assume "agree (h ! g1) (h ! g2)"
  from mergeConservative_agree [OF assms this] obtain h' where
    r: "mergeConservative g1 g2 h = (Inr (length h), h')" and m: "merging h h'"
    and kn: "\<forall>k u. map_of (u_nodes (h ! g1)) k = Some u \<longrightarrow>
       map_of (u_nodes (h' ! length h)) k = Some u"
    and pn: "\<forall>y \<in> set (getAllNodes (h ! g2)). getNode (address y) (h' ! length h) \<noteq> None"
    and ke: "\<forall>k u. map_of (u_edges (h ! g1)) k = Some u \<longrightarrow>
       map_of (u_edges (h' ! length h)) k = Some u"
    and pe: "\<forall>y \<in> set (getAllEdges (h ! g2)). getEdge (address y) (h' ! length h) \<noteq> None"
    by (elim exE conjE) (rule that)
  let ?R = "h' ! length h"
  from m have wf: "well_formed ?R"
    by (simp add: merging_def)
  then have kR: "keyed_by_address (u_nodes ?R)" and eR: "keyed_by_address (u_edges ?R)"
    by (simp_all add: well_formed_def)
  from assms(3) have k1: "keyed_by_address (u_nodes (h ! g1))"
    and e1: "keyed_by_address (u_edges (h ! g1))"
    by (simp_all add: well_formed_def)
  have a: "[n \<leftarrow> getAllNodes ?R. JSON_stringify (address n) = JSON_stringify (address n1)] = [n1]"
    if "n1 \<in> set (getAllNodes (h ! g1))" for n1
  proof -
    from that k1 have "get (address n1) (u_nodes (h ! g1)) = Some n1"
      by (simp add: getAllNodes_def keyed_by_address_get)
    then have "map_of (u_nodes (h ! g1)) (JSON_stringify (address n1)) = Some n1"
      by (simp add: get_def)
    with kn have "map_of (u_nodes ?R) (JSON_stringify (address n1)) = Some n1"
      by (elim allE impE)
    then have "get (address n1) (u_nodes ?R) = Some n1"
      by (simp add: get_def)
    from single_entry [OF kR this] show ?thesis
      by (simp add: getAllNodes_def)
  qed
  have b: "length [n \<leftarrow> getAllNodes ?R. JSON_stringify (address n) = JSON_stringify (address n2)] = 1"
    if "n2 \<in> set (getAllNodes (h ! g2))" for n2
  proof -
    from that pn obtain u where "get (address n2) (u_nodes ?R) = Some u"
      by (auto simp: getNode_def)
    from single_entry [OF kR this] show ?thesis
      by (simp add: getAllNodes_def)
  qed
  have c: "[e \<leftarrow> getAllEdges ?R. JSON_stringify (address e) = JSON_stringify (address x)] = [x]"
    if "x \<in> set (getAllEdges (h ! g1))" for x
  proof -
    from that e1 have "get (address x) (u_edges (h ! g1)) = Some x"
      by (simp add: getAllEdges_def keyed_by_address_get)
    then have "map_of (u_edges (h ! g1)) (JSON_stringify (address x)) = Some x"
      by (simp add: get_def)
    with ke have "map_of (u_edges ?R) (JSON_stringify (address x)) = Some x"
      by (elim allE impE)
    then have "get (address x) (u_edges ?R) = Some x"
      by (simp add: get_def)
    from single_entry [OF eR this] show ?thesis
      by (simp add: getAllEdges_def)
  qed
  have d: "length [e \<leftarrow> getAllEdges ?R. JSON_stringify (address e) = JSON_stringify (address x)] = 1"
    if "x \<in> set (getAllEdges (h ! g2))" for x
  proof -
    from that pe obtain u where "get (address x) (u_edges ?R) = Some u"
      by (auto simp: getEdge_def)
    from single_entry [OF eR this] show ?thesis
      by (simp add: getAllEdges_def)
  qed
  show "\<exists>h'. mergeConservative g1 g2 h = (Inr (length h), h') \<and>
         (\<forall>n1 \<in> set (getAllNodes (h ! g1)).
            [n \<leftarrow> getAllNodes (h' ! length h).
               JSON_stringify (address n) = JSON_stringify (address n1)] = [n1]) \<and>
         (\<forall>n2 \<in> set (getAllNodes (h ! g2)).
            length [n \<leftarrow> getAllNodes (h' ! length h).
               JSON_stringify (address n) = JSON_stringify (address n2)] = 1) \<and>
         (\<forall>e1 \<in> set (getAllEdges (h ! g1)).
            [e \<leftarrow> getAllEdges (h' ! length h).
               JSON_stringify (address e) = JSON_stringify (address e1)] = [e1]) \<and>
         (\<forall>e2 \<in> set (getAllEdges (h ! g2)).
            length [e \<leftarrow> getAllEdges (h' ! length h).
               JSON_stringify (address e) = JSON_stringify (address e2)] = 1)"
    using r a b c d by (intro exI [of _ h'] conjI ballI)
qed

lemma fakeHouse_eval:
  "fakeHouse = \<lparr>u_nodes = [(JSON_stringify (makeAddress ''mansion''), fakeMansion)],
     u_edges = [],
     u_outEdges = [(JSON_stringify (makeAddress ''mansion''),
        \<lparr>address = makeAddress ''mansion'', edges = []\<rparr>)],
     u_inEdges = [(JSON_stringify (makeAddress ''mansion''),
        \<lparr>address = makeAddress ''mansion'', edges = []\<rparr>)]\<rparr>"
  by (simp add: fakeHouse_def addNode_def Graph_new_def AddressMap_new_def getNode_def get_def
      add_def fakeMansion_def)

lemma well_formed_fakeHouse: "well_formed fakeHouse"
  unfolding fakeHouse_def by (intro well_formed_addNode well_formed_Graph_new)

theorem mergeConservative_agree_or_conflict_witness:
  "(0::nat) < length [twoHouses, suburbia] \<and> (1::nat) < length [twoHouses, suburbia] \<and>
   well_formed ([twoHouses, suburbia] ! 0) \<and> well_formed ([twoHouses, suburbia] ! 1) \<and>
   agree ([twoHouses, suburbia] ! 0) ([twoHouses, suburbia] ! 1) \<and>
   (\<exists>h'. mergeConservative 0 1 [twoHouses, suburbia] = (Inr 2, h') \<and>
      [n \<leftarrow> getAllNodes (h' ! 2).
         JSON_stringify (address n) = JSON_stringify (address mansion)] = [mansion] \<and>
      length [e \<leftarrow> getAllEdges (h' ! 2).
         JSON_stringify (address e) = JSON_stringify (address delivery)] = 1) \<and>
   (0::nat) < length [oneHouse, fakeHouse] \<and> (1::nat) < length [oneHouse, fakeHouse] \<and>
   well_formed ([oneHouse, fakeHouse] ! 0) \<and> well_formed ([oneHouse, fakeHouse] ! 1) \<and>
   \<not> agree ([oneHouse, fakeHouse] ! 0) ([oneHouse, fakeHouse] ! 1) \<and>
   fst (mergeConservative 0 1 [oneHouse, fakeHouse]) =
     Inl (Error (''distinct nodes with address '' @ JSON_stringify (address mansion)))"
proof -
  define h where "h = [twoHouses, suburbia]"
  define k where "k = [oneHouse, fakeHouse]"
  have h0: "h ! 0 = twoHouses" and h1: "h ! 1 = suburbia" and hl: "length h = 2"
    and k0: "k ! 0 = oneHouse" and k1: "k ! 1 = fakeHouse" and kl: "length k = 2"
    by (simp_all add: h_def k_def)
  have lh: "(0::nat) < length h" "(1::nat) < length h"
    and lk: "(0::nat) < length k" "(1::nat) < length k"
    by (simp_all add: hl kl)
  have wh: "well_formed (h ! 0)" "well_formed (h ! 1)"
    unfolding h0 h1 by (rule well_formed_twoHouses, rule well_formed_suburbia)
  have wk: "well_formed (k ! 0)" "well_formed (k ! 1)"
    unfolding k0 k1 by (rule well_formed_oneHouse, rule well_formed_fakeHouse)
  have ag: "agree (h ! 0) (h ! 1)"
    unfolding h0 h1
    by (simp add: agree_def twoHouses_eval suburbia_eval getAllNodes_def getAllEdges_def
        getAll_def getNode_def get_def mansion_def mattressStore_def deepEqual_node_def
        deepEqual_address_def JSON_stringify_inject makeAddress_inject)
  have nag: "\<not> agree (k ! 0) (k ! 1)"
    unfolding k0 k1
    by (simp add: agree_def oneHouse_eval fakeHouse_eval getAllNodes_def getAllEdges_def
        getAll_def getNode_def get_def mansion_def fakeMansion_def deepEqual_node_def)
  have in1: "mansion \<in> set (getAllNodes (h ! 0))"
    unfolding h0 by (simp add: twoHouses_eval getAllNodes_def getAll_def)
  have in2: "delivery \<in> set (getAllEdges (h ! 1))"
    unfolding h1 by (simp add: suburbia_eval getAllEdges_def getAll_def)
  note th = mergeConservative_agree_or_conflict [OF lh wh]
  from th [THEN conjunct1, THEN mp, OF ag] obtain h' where r: "mergeConservative 0 1 h = (Inr (length h), h')"
    and a: "\<forall>n1 \<in> set (getAllNodes (h ! 0)).
       [n \<leftarrow> getAllNodes (h' ! length h).
          JSON_stringify (address n) = JSON_stringify (address n1)] = [n1]"
    and d: "\<forall>e2 \<in> set (getAllEdges (h ! 1)).
       length [e \<leftarrow> getAllEdges (h' ! length h).
          JSON_stringify (address e) = JSON_stringify (address e2)] = 1"
    by (elim exE conjE) (rule that)
  from a in1 have a': "[n \<leftarrow> getAllNodes (h' ! length h).
      JSON_stringify (address n) = JSON_stringify (address mansion)] = [mansion]"
    by (rule bspec)
  from d in2 have d': "length [e \<leftarrow> getAllEdges (h' ! length h).
      JSON_stringify (address e) = JSON_stringify (address delivery)] = 1"
    by (rule bspec)
  from r a' d' have 1: "\<exists>h'. mergeConservative 0 1 h = (Inr 2, h') \<and>
      [n \<leftarrow> getAllNodes (h' ! 2).
         JSON_stringify (address n) = JSON_stringify (address mansion)] = [mansion] \<and>
      length [e \<leftarrow> getAllEdges (h' ! 2).
         JSON_stringify (address e) = JSON_stringify (address delivery)] = 1"
    unfolding hl by (intro exI [of _ h'] conjI)
  note tk = mergeConservative_agree_or_conflict [OF lk wk]
  from tk [THEN conjunct2, THEN mp, OF nag] have "(\<exists>n1 \<in> set (getAllNodes (k ! 0)). \<exists>n2.
         getNode (address n1) (k ! 1) = Some n2 \<and> \<not> deepEqual_node n1 n2 \<and>
         fst (mergeConservative 0 1 k) =
           Inl (Error (''distinct nodes with address '' @ JSON_stringify (address n1)))) \<or>
      (\<exists>e1 \<in> set (getAllEdges (k ! 0)). \<exists>e2.
         getEdge (address e1) (k ! 1) = Some e2 \<and> \<not> deepEqual_edge e1 e2 \<and>
         fst (mergeConservative 0 1 k) =
           Inl (Error (''distinct edges with address '' @ JSON_stringify (address e1))))"
    .
  moreover have "getAllNodes (k ! 0) = [mansion]" and "getAllEdges (k ! 0) = []"
    unfolding k0 by (simp_all add: oneHouse_eval getAllNodes_def getAllEdges_def getAll_def)
  ultimately have 2: "fst (mergeConservative 0 1 k) =
     Inl (Error (''distinct nodes with address '' @ JSON_stringify (address mansion)))"
    by (elim disjE bexE exE conjE) simp_all
  from lh wh ag 1 lk wk nag 2 show ?thesis
    unfolding h_def k_def by (intro conjI)
qed

end
